theory Spec2Isabelle
  imports Complex_Main "HOL-Library.Word"
begin

unbundle bit_operations_syntax

section \<open>Common types (fso.h)\<close>

text \<open>
  The error codes of \<^verbatim>\<open>FSOErrorCode\<close> other than \<^verbatim>\<open>FSO_SUCCESS\<close>. A function of the
  library that returns \<^verbatim>\<open>FSO_SUCCESS\<close> is modelled as returning \<open>Inr\<close> of its outputs.
\<close>

datatype FSOErrorCode =
    FSO_ERROR_INVALID_PARAM
  | FSO_ERROR_MEMORY
  | FSO_ERROR_NOT_INITIALIZED
  | FSO_ERROR_CONVERGENCE
  | FSO_ERROR_UNSUPPORTED
  | FSO_ERROR_IO

text \<open>
  A call either returns an error code or leaves the defined behaviour of C by storing
  outside an allocated table.
\<close>

datatype failure = Returned FSOErrorCode | Out_Of_Bounds

section \<open>Galois field arithmetic (reed\_solomon.c)\<close>

definition RS_MAX_SYMBOL_SIZE :: int where
  "RS_MAX_SYMBOL_SIZE = 16"

record GaloisField =
  symbol_size :: int
  field_size :: int
  primitive_poly :: int
  exp_table :: "int list"
  log_table :: "int list"
  inv_table :: "int list"

text \<open>
  \<^verbatim>\<open>gf_mul_no_table\<close>: the loop \<^verbatim>\<open>while (b > 0)\<close> with its four locals. The C \<^verbatim>\<open>int\<close>
  is modelled by \<open>int\<close>; for a polynomial of degree \<open>m\<close> all values stay below \<open>2 ^ m\<close>.
\<close>

function gf_mul_no_table_loop :: "int \<Rightarrow> int \<Rightarrow> int \<Rightarrow> int \<Rightarrow> int \<Rightarrow> int" where
  "gf_mul_no_table_loop a b poly fsize result =
     (if b > 0 then
        (let result1 = (if b AND 1 \<noteq> 0 then result XOR a else result);
             a1 = push_bit 1 a;
             a2 = (if a1 \<ge> fsize then a1 XOR poly else a1)
         in gf_mul_no_table_loop a2 (drop_bit 1 b) poly fsize result1)
      else result)"
  by pat_completeness auto
termination
  by (relation "measure (\<lambda>(a, b, poly, fsize, result). nat b)")
     (auto simp: drop_bit_eq_div)

declare gf_mul_no_table_loop.simps [simp del]

definition gf_mul_no_table :: "int \<Rightarrow> int \<Rightarrow> int \<Rightarrow> int \<Rightarrow> int" where
  "gf_mul_no_table a b poly fsize = gf_mul_no_table_loop a b poly fsize 0"

text \<open>
  One pass of the first loop of \<^verbatim>\<open>gf_build_tables\<close>. The store \<^verbatim>\<open>log_table[x] = i\<close> is
  indexed by a computed field element, so the model checks it against the table.
\<close>

definition gf_build_step ::
  "int \<Rightarrow> int \<Rightarrow> nat \<Rightarrow> (int \<times> int list \<times> int list) option
     \<Rightarrow> (int \<times> int list \<times> int list) option" where
  "gf_build_step poly fsize i st =
     (case st of
        None \<Rightarrow> None
      | Some (x, ex, lg) \<Rightarrow>
          (let x1 = gf_mul_no_table x 2 poly fsize
           in if 0 \<le> x1 \<and> x1 < int (length lg)
              then Some (x1, ex[i := x1], lg[nat x1 := int i])
              else None))"

definition gf_build_tables :: "GaloisField \<Rightarrow> failure + GaloisField" where
  "gf_build_tables gf =
     (let q = nat (field_size gf);
          ex0 = (exp_table gf)[0 := 1];
          lg0 = ((log_table gf)[0 := 0])[1 := 0]
      in case fold (gf_build_step (primitive_poly gf) (field_size gf)) [1..<q - 1]
                (Some (1, ex0, lg0)) of
           None \<Rightarrow> Inl Out_Of_Bounds
         | Some (x, ex1, lg1) \<Rightarrow>
             (let ex2 = fold (\<lambda>i ex. ex[i := ex ! (i - (q - 1))]) [q - 1..<2 * q - 2] ex1;
                  iv0 = (inv_table gf)[0 := 0];
                  iv1 = fold (\<lambda>i iv. iv[i := ex2 ! nat (int q - 1 - lg1 ! i)]) [1..<q] iv0
              in Inr (gf\<lparr>exp_table := ex2, log_table := lg1, inv_table := iv1\<rparr>)))"

text \<open>
  \<^verbatim>\<open>gf_init\<close>. The flag \<open>alloc_ok\<close> says whether the three \<^verbatim>\<open>calloc\<close> calls succeed;
  \<^verbatim>\<open>calloc\<close> zero-fills the tables.
\<close>

definition gf_init :: "bool \<Rightarrow> int \<Rightarrow> int \<Rightarrow> failure + GaloisField" where
  "gf_init alloc_ok m poly =
     (if \<not> (m \<ge> 3 \<and> m \<le> RS_MAX_SYMBOL_SIZE) then Inl (Returned FSO_ERROR_INVALID_PARAM)
      else if \<not> (poly > 0) then Inl (Returned FSO_ERROR_INVALID_PARAM)
      else if \<not> alloc_ok then Inl (Returned FSO_ERROR_MEMORY)
      else
        (let q = (2::nat) ^ nat m
         in gf_build_tables
              \<lparr>symbol_size = m, field_size = int q, primitive_poly = poly,
               exp_table = replicate (2 * q) 0,
               log_table = replicate q 0,
               inv_table = replicate q 0\<rparr>))"

definition gf_add :: "GaloisField \<Rightarrow> int \<Rightarrow> int \<Rightarrow> int" where
  "gf_add gf a b = a XOR b"

definition gf_mul :: "GaloisField \<Rightarrow> int \<Rightarrow> int \<Rightarrow> int" where
  "gf_mul gf a b =
     (if a = 0 \<or> b = 0 then 0
      else
        (let log_sum = log_table gf ! nat a + log_table gf ! nat b;
             log_sum1 = (if log_sum \<ge> field_size gf - 1
                         then log_sum - (field_size gf - 1) else log_sum)
         in exp_table gf ! nat log_sum1))"

definition gf_div :: "GaloisField \<Rightarrow> int \<Rightarrow> int \<Rightarrow> int" where
  "gf_div gf a b =
     (if a = 0 then 0
      else if b = 0 then 0
      else
        (let log_diff = log_table gf ! nat a - log_table gf ! nat b;
             log_diff1 = (if log_diff < 0 then log_diff + (field_size gf - 1) else log_diff)
         in exp_table gf ! nat log_diff1))"

text \<open>The remainder of C: the quotient is truncated towards zero.\<close>

definition c_rem :: "int \<Rightarrow> int \<Rightarrow> int" where
  "c_rem a b = sgn a * (\<bar>a\<bar> mod \<bar>b\<bar>)"

text \<open>
  \<^verbatim>\<open>gf_pow\<close>. The product of the logarithm and the exponent is an \<^verbatim>\<open>int\<close> of 32 bits and
  its remainder indexes \<^verbatim>\<open>exp_table\<close>. The result is \<open>None\<close> where C leaves the behaviour
  undefined: the product overflows, the divisor is 0, or an index is outside its table
  (a negative product has a negative remainder, which reads before the table).
\<close>

definition gf_pow :: "GaloisField \<Rightarrow> int \<Rightarrow> int \<Rightarrow> int option" where
  "gf_pow gf base exponent =
     (if base = 0 then Some 0
      else if exponent = 0 then Some 1
      else if base < 0 \<or> nat base \<ge> length (log_table gf) then None
      else
        (let product = log_table gf ! nat base * exponent
         in if product < - 2147483648 \<or> product > 2147483647 then None
            else if field_size gf - 1 = 0 then None
            else
              (let log_result = c_rem product (field_size gf - 1)
               in if log_result < 0 \<or> nat log_result \<ge> length (exp_table gf) then None
                  else Some (exp_table gf ! nat log_result))))"

definition gf_inv :: "GaloisField \<Rightarrow> int \<Rightarrow> int" where
  "gf_inv gf a = (if a = 0 then 0 else inv_table gf ! nat a)"

text \<open>
  \<^verbatim>\<open>rs_is_primitive_poly_valid\<close>: the degree of the polynomial is its bit length less one.
\<close>

function bit_length_loop :: "int \<Rightarrow> int \<Rightarrow> int" where
  "bit_length_loop temp degree =
     (if temp > 0 then bit_length_loop (drop_bit 1 temp) (degree + 1) else degree)"
  by pat_completeness auto
termination
  by (relation "measure (\<lambda>(temp, degree). nat temp)") (auto simp: drop_bit_eq_div)

declare bit_length_loop.simps [simp del]

definition rs_is_primitive_poly_valid :: "int \<Rightarrow> int \<Rightarrow> int" where
  "rs_is_primitive_poly_valid m poly =
     (if m < 3 \<or> m > RS_MAX_SYMBOL_SIZE then 0
      else if poly \<le> 0 then 0
      else if bit_length_loop poly 0 - 1 = m then 1 else 0)"

section \<open>Reed--Solomon codec (reed\_solomon.c, fec.h)\<close>

type_synonym uint8_t = "8 word"

definition RS_MAX_PARITY_SYMBOLS :: int where
  "RS_MAX_PARITY_SYMBOLS = 255"

definition RS_MAX_CODE_LENGTH :: int where
  "RS_MAX_CODE_LENGTH = 65535"

record RSConfig =
  cfg_symbol_size :: int
  cfg_num_roots :: int
  cfg_first_root :: int
  cfg_primitive_poly :: int
  cfg_fcr :: int

record RSCodec =
  gf :: GaloisField
  rs_n :: int
  rs_k :: int
  rs_t :: int
  num_roots :: int
  first_root :: int
  fcr :: int
  generator_poly :: "int list"
  gen_poly_degree :: nat

text \<open>
  One pass of the loop of \<^verbatim>\<open>rs_generate_generator_polynomial\<close>: copy the polynomial to
  the local array \<^verbatim>\<open>temp\<close> (of \<^verbatim>\<open>RS_MAX_PARITY_SYMBOLS + 1\<close> cells), shift it up by one
  place, and add the root times the copy. The state is \<open>None\<close> once the behaviour of C is
  undefined: a store outside an array, an overflow of \<^verbatim>\<open>fcr + i\<close>, or \<^verbatim>\<open>gf_pow\<close> undefined.
\<close>

definition gen_poly_step ::
  "GaloisField \<Rightarrow> int \<Rightarrow> nat \<Rightarrow> (int list \<times> nat) option \<Rightarrow> (int list \<times> nat) option" where
  "gen_poly_step g fc i st =
     (case st of
        None \<Rightarrow> None
      | Some (gp, deg) \<Rightarrow>
          if int deg + 1 > RS_MAX_PARITY_SYMBOLS + 1 \<or> deg + 1 \<ge> length gp then None
          else if fc + int i > 2147483647 then None
          else
            (case gf_pow g 2 (fc + int i) of
               None \<Rightarrow> None
             | Some alpha_root \<Rightarrow>
                 (let temp = take (deg + 1) gp;
                      gp1 = fold (\<lambda>j p. p[j + 1 := temp ! j]) (rev [0..<deg + 1]) gp;
                      gp2 = gp1[0 := 0];
                      deg1 = deg + 1;
                      gp3 = fold (\<lambda>j p. p[j := gf_add g (p ! j) (gf_mul g alpha_root (temp ! j))])
                              [0..<deg1] gp2
                  in Some (gp3, deg1))))"

definition rs_generate_generator_polynomial :: "RSCodec \<Rightarrow> failure + RSCodec" where
  "rs_generate_generator_polynomial rs =
     (case fold (gen_poly_step (gf rs) (fcr rs)) [0..<nat (num_roots rs)]
             (Some ((generator_poly rs)[0 := 1], 0)) of
        None \<Rightarrow> Inl Out_Of_Bounds
      | Some (gp, deg) \<Rightarrow> Inr (rs\<lparr>generator_poly := gp, gen_poly_degree := deg\<rparr>))"

text \<open>
  \<^verbatim>\<open>rs_init\<close>; the work arrays of the decoder (syndrome, locator, evaluator, positions,
  values) are not used by the encoder and are left out of the record.
\<close>

definition rs_init :: "bool \<Rightarrow> RSConfig \<Rightarrow> int \<Rightarrow> int \<Rightarrow> failure + RSCodec" where
  "rs_init alloc_ok config n k =
     (if \<not> (n > k \<and> k > 0) then Inl (Returned FSO_ERROR_INVALID_PARAM)
      else if \<not> (n \<le> push_bit (nat (cfg_symbol_size config)) 1 - 1)
        then Inl (Returned FSO_ERROR_INVALID_PARAM)
      else if \<not> alloc_ok then Inl (Returned FSO_ERROR_MEMORY)
      else
        (case gf_init alloc_ok (cfg_symbol_size config) (cfg_primitive_poly config) of
           Inl e \<Rightarrow> Inl e
         | Inr g \<Rightarrow>
             rs_generate_generator_polynomial
               \<lparr>gf = g, rs_n = n, rs_k = k, rs_t = (n - k) div 2, num_roots = n - k,
                first_root = cfg_first_root config, fcr = cfg_fcr config,
                generator_poly = replicate (nat (n - k) + 1) 0, gen_poly_degree = 0\<rparr>))"

text \<open>
  \<^verbatim>\<open>rs_encode\<close>. \<open>data\<close> is the input array with its length, \<open>encoded_len\<close> the capacity of
  the output buffer; the result is the first \<open>n\<close> cells of \<^verbatim>\<open>encoded\<close>. The local array
  \<^verbatim>\<open>temp\<close> holds \<^verbatim>\<open>int\<close>s, the output holds bytes.
\<close>

definition rs_divide_step :: "RSCodec \<Rightarrow> nat \<Rightarrow> int list \<Rightarrow> int list" where
  "rs_divide_step rs i temp =
     (let feedback = temp ! i
      in if feedback \<noteq> 0
         then fold (\<lambda>j tmp. tmp[i + j := gf_add (gf rs) (tmp ! (i + j))
                                           (gf_mul (gf rs) feedback (generator_poly rs ! j))])
                [0..<gen_poly_degree rs + 1] temp
         else temp)"

definition rs_encode :: "RSCodec \<Rightarrow> uint8_t list \<Rightarrow> nat \<Rightarrow> failure + uint8_t list" where
  "rs_encode rs data encoded_len =
     (if \<not> (int (length data) = rs_k rs) then Inl (Returned FSO_ERROR_INVALID_PARAM)
      else if \<not> (int encoded_len \<ge> rs_n rs) then Inl (Returned FSO_ERROR_INVALID_PARAM)
      else
        (let n = nat (rs_n rs); k = nat (rs_k rs);
             encoded0 = fold (\<lambda>i enc. enc[i := data ! i]) [0..<k] (replicate n 0);
             encoded1 = fold (\<lambda>i enc. enc[i := 0]) [k..<n] encoded0;
             temp0 = fold (\<lambda>i tmp. tmp[i := uint (data ! i)]) [0..<k] (replicate n 0);
             temp1 = fold (\<lambda>i tmp. tmp[i := 0]) [k..<n] temp0;
             temp2 = fold (rs_divide_step rs) [0..<k] temp1;
             encoded2 = fold (\<lambda>i enc. enc[k + i := word_of_int (temp2 ! (k + i))])
                          [0..<nat (num_roots rs)] encoded1
         in if rs_n rs > RS_MAX_CODE_LENGTH then Inl Out_Of_Bounds else Inr encoded2))"

section \<open>Misalignment detection (misalignment.c, beam\_tracking.h)\<close>

text \<open>
  A \<^verbatim>\<open>double\<close> of the tracker is a finite number, one of the two infinities, or not a
  number. \<open>double_less\<close> is the comparison \<^verbatim>\<open><\<close> of C: it is false as soon as one side
  is not a number.
\<close>

datatype double = Finite real | PosInf | NegInf | NaN

fun double_less :: "double \<Rightarrow> double \<Rightarrow> bool" where
  "double_less (Finite x) (Finite y) \<longleftrightarrow> x < y"
| "double_less (Finite x) PosInf \<longleftrightarrow> True"
| "double_less NegInf (Finite y) \<longleftrightarrow> True"
| "double_less NegInf PosInf \<longleftrightarrow> True"
| "double_less a b \<longleftrightarrow> False"

text \<open>
  The scalar fields of \<^verbatim>\<open>BeamTracker\<close>. The two owned objects (signal map and PID
  controller) are not touched by the functions modelled here and are left out.
\<close>

record BeamTracker =
  azimuth :: double
  elevation :: double
  signal_strength :: double
  step_size :: double
  momentum :: double
  velocity_az :: double
  velocity_el :: double
  step_size_min :: double
  step_size_max :: double
  step_adapt_factor :: double
  convergence_count :: int
  convergence_threshold :: int
  convergence_epsilon :: double
  signal_threshold :: double
  misaligned :: int
  reacquisition_mode :: int
  update_count :: int
  scan_count :: int


definition beam_track_set_threshold ::
  "BeamTracker \<Rightarrow> double \<Rightarrow> FSOErrorCode + BeamTracker" where
  "beam_track_set_threshold tracker threshold =
     (if double_less threshold (Finite 0) \<or> double_less (Finite 1) threshold
      then Inl FSO_ERROR_INVALID_PARAM
      else Inr (tracker\<lparr>signal_threshold := threshold\<rparr>))"

section \<open>Primitive polynomials\<close>

text \<open>
  A polynomial over GF(2) is given by its bits, as in the source. \<open>xtimes\<close> multiplies a
  residue by \<open>x\<close> modulo the polynomial. The polynomial of degree \<open>m\<close> is primitive when
  \<open>x\<close> has multiplicative order \<open>2 ^ m - 1\<close> modulo it: the power \<open>2 ^ m - 1\<close> of \<open>x\<close> is
  the first one that equals 1.
\<close>

definition xtimes :: "int \<Rightarrow> int \<Rightarrow> int \<Rightarrow> int" where
  "xtimes poly q v = (if 2 * v \<ge> q then (2 * v) XOR poly else 2 * v)"

definition alpha_power :: "int \<Rightarrow> int \<Rightarrow> nat \<Rightarrow> int" where
  "alpha_power poly q i = (xtimes poly q ^^ i) 1"

definition primitive_polynomial :: "int \<Rightarrow> int \<Rightarrow> bool" where
  "primitive_polynomial m poly \<longleftrightarrow>
     rs_is_primitive_poly_valid m poly = 1
     \<and> alpha_power poly (2 ^ nat m) (2 ^ nat m - 1) = 1
     \<and> (\<forall>i\<in>{1..<2 ^ nat m - 1}. alpha_power poly (2 ^ nat m) i \<noteq> 1)"

section \<open>LDPC codec: sparse matrices (ldpc.c, ldpc.h)\<close>

definition LDPC_MAX_CODE_LENGTH :: int where
  "LDPC_MAX_CODE_LENGTH = 8192"

definition LDPC_MAX_ITERATIONS :: int where
  "LDPC_MAX_ITERATIONS = 100"

record SparseElement =
  se_row :: nat
  se_col :: nat
  se_value :: int

text \<open>
  \<^verbatim>\<open>SparseMatrix\<close>. Row, column and element counts are never negative once
  \<^verbatim>\<open>sparse_matrix_init\<close> has checked them and are modelled by natural numbers. An array
  that was not allocated (a null pointer) is the empty list; an allocated array has at
  least one cell.
\<close>

record SparseMatrix =
  rows :: nat
  cols :: nat
  nnz :: nat
  elements :: "SparseElement list"
  row_ptr :: "nat list"
  col_indices :: "nat list"
  csr_values :: "int list"

definition zero_element :: SparseElement where
  "zero_element = \<lparr>se_row = 0, se_col = 0, se_value = 0\<rparr>"

definition sparse_matrix_init :: "int \<Rightarrow> int \<Rightarrow> int \<Rightarrow> FSOErrorCode + SparseMatrix" where
  "sparse_matrix_init r c z =
     (if \<not> (r > 0 \<and> c > 0 \<and> z \<ge> 0) then Inl FSO_ERROR_INVALID_PARAM
      else if z > 0
        then Inr \<lparr>rows = nat r, cols = nat c, nnz = nat z,
                  elements = replicate (nat z) zero_element,
                  row_ptr = replicate (nat r + 1) 0,
                  col_indices = replicate (nat z) 0,
                  csr_values = replicate (nat z) 0\<rparr>
        else Inr \<lparr>rows = nat r, cols = nat c, nnz = 0, elements = [],
                  row_ptr = [], col_indices = [], csr_values = []\<rparr>)"

text \<open>
  \<^verbatim>\<open>sparse_matrix_to_csr\<close>: the exchange sort of the first \<open>nnz\<close> elements by row and
  column, then the three CSR arrays.
\<close>

definition element_after :: "SparseElement \<Rightarrow> SparseElement \<Rightarrow> bool" where
  "element_after a b \<longleftrightarrow>
     se_row a > se_row b \<or> (se_row a = se_row b \<and> se_col a > se_col b)"

definition sort_inner :: "nat \<Rightarrow> nat \<Rightarrow> SparseElement list \<Rightarrow> SparseElement list" where
  "sort_inner i j es =
     (if element_after (es ! i) (es ! j) then (es[i := es ! j])[j := es ! i] else es)"

definition sort_elements :: "nat \<Rightarrow> SparseElement list \<Rightarrow> SparseElement list" where
  "sort_elements z es =
     fold (\<lambda>i es1. fold (sort_inner i) [i + 1..<z] es1) [0..<z - 1] es"

definition csr_step ::
  "SparseElement list \<Rightarrow> nat \<Rightarrow> nat \<times> nat list \<times> nat list \<times> int list
     \<Rightarrow> nat \<times> nat list \<times> nat list \<times> int list" where
  "csr_step es i st =
     (case st of (current_row, rp, ci, vs) \<Rightarrow>
        (let r = se_row (es ! i);
             rp1 = fold (\<lambda>cr p. p[cr := i]) [current_row + 1..<r + 1] rp
         in (max current_row r, rp1, ci[i := se_col (es ! i)], vs[i := se_value (es ! i)])))"

definition sparse_matrix_to_csr :: "SparseMatrix \<Rightarrow> SparseMatrix" where
  "sparse_matrix_to_csr mat =
     (if nnz mat = 0 then mat
      else
        (let es = sort_elements (nnz mat) (elements mat);
             rp0 = (row_ptr mat)[0 := 0]
         in case fold (csr_step es) [0..<nnz mat] (0, rp0, col_indices mat, csr_values mat) of
              (current_row, rp, ci, vs) \<Rightarrow>
                mat\<lparr>elements := es,
                    row_ptr := fold (\<lambda>cr p. p[cr := nnz mat]) [current_row + 1..<rows mat + 1] rp,
                    col_indices := ci, csr_values := vs\<rparr>))"

section \<open>LDPC codec: construction (ldpc.c)\<close>

record LDPCConfig =
  cfg_max_iterations :: int
  cfg_convergence_threshold :: real

text \<open>
  \<^verbatim>\<open>LDPCCodec\<close>. The message arrays of the decoder are allocated by \<^verbatim>\<open>ldpc_init\<close> with
  \<open>n * m\<close> zero cells each, the posterior and channel arrays with \<open>n\<close> cells.
\<close>

record LDPCCodec =
  ldpc_n :: nat
  ldpc_k :: nat
  ldpc_m :: nat
  code_rate :: real
  max_iterations :: int
  convergence_threshold :: real
  pc_H :: SparseMatrix
  gen_G :: SparseMatrix
  variable_to_check :: "real list"
  check_to_variable :: "real list"
  posterior_llr :: "real list"
  channel_llr :: "real list"
  decoded_bits :: "int list"
  syndrome :: "int list"
  var_degree :: "nat list"
  check_degree :: "nat list"
  var_to_check_edges :: "nat list list"
  check_to_var_edges :: "nat list list"

definition empty_matrix :: SparseMatrix where
  "empty_matrix =
     \<lparr>rows = 0, cols = 0, nnz = 0, elements = [], row_ptr = [], col_indices = [],
      csr_values = []\<rparr>"

definition LDPC_DEFAULT_CONVERGENCE_THRESHOLD :: real where
  "LDPC_DEFAULT_CONVERGENCE_THRESHOLD = 1 / 1000000"

text \<open>
  \<^verbatim>\<open>ldpc_init\<close> allocates the two matrix structs with \<^verbatim>\<open>malloc\<close> and does not write to
  them. Their content after the call is whatever the allocation held: it is given to the
  model as \<open>H_alloc\<close> and \<open>G_alloc\<close>.
\<close>

definition ldpc_init ::
  "LDPCConfig \<Rightarrow> int \<Rightarrow> int \<Rightarrow> SparseMatrix \<Rightarrow> SparseMatrix \<Rightarrow> FSOErrorCode + LDPCCodec" where
  "ldpc_init config n k H_alloc G_alloc =
     (if \<not> (n > k \<and> k > 0) then Inl FSO_ERROR_INVALID_PARAM
      else if \<not> (n \<le> LDPC_MAX_CODE_LENGTH) then Inl FSO_ERROR_INVALID_PARAM
      else
        (let nn = nat n; kk = nat k; mm = nat (n - k)
         in Inr \<lparr>ldpc_n = nn, ldpc_k = kk, ldpc_m = mm,
                  code_rate = real_of_int k / real_of_int n,
                  max_iterations =
                    (if cfg_max_iterations config > 0 then cfg_max_iterations config
                     else LDPC_MAX_ITERATIONS),
                  convergence_threshold =
                    (if cfg_convergence_threshold config > 0
                     then cfg_convergence_threshold config
                     else LDPC_DEFAULT_CONVERGENCE_THRESHOLD),
                  pc_H = H_alloc, gen_G = G_alloc,
                  variable_to_check = replicate (nn * mm) 0,
                  check_to_variable = replicate (nn * mm) 0,
                  posterior_llr = replicate nn 0,
                  channel_llr = replicate nn 0,
                  decoded_bits = replicate nn 0,
                  syndrome = replicate mm 0,
                  var_degree = replicate nn 0,
                  check_degree = replicate mm 0,
                  var_to_check_edges = replicate nn [],
                  check_to_var_edges = replicate mm []\<rparr>))"

text \<open>
  \<^verbatim>\<open>ldpc_init_message_graph\<close>: the degrees of the nodes and, for every node, the list of
  its neighbours in the order of the element array.
\<close>

definition ldpc_init_message_graph :: "LDPCCodec \<Rightarrow> LDPCCodec" where
  "ldpc_init_message_graph ldpc =
     (let es = filter (\<lambda>e. se_row e < ldpc_m ldpc \<and> se_col e < ldpc_n ldpc)
                 (take (nnz (pc_H ldpc)) (elements (pc_H ldpc)));
          vd = fold (\<lambda>e d. d[se_col e := d ! se_col e + 1]) es (replicate (ldpc_n ldpc) 0);
          cd = fold (\<lambda>e d. d[se_row e := d ! se_row e + 1]) es (replicate (ldpc_m ldpc) 0);
          ve = fold (\<lambda>e l. if length (l ! se_col e) < vd ! se_col e
                             then l[se_col e := l ! se_col e @ [se_row e]] else l)
                 es (replicate (ldpc_n ldpc) []);
          ce = fold (\<lambda>e l. if length (l ! se_row e) < cd ! se_row e
                             then l[se_row e := l ! se_row e @ [se_col e]] else l)
                 es (replicate (ldpc_m ldpc) [])
      in ldpc\<lparr>var_degree := vd, check_degree := cd,
              var_to_check_edges := ve, check_to_var_edges := ce\<rparr>)"

text \<open>
  \<^verbatim>\<open>ldpc_create_regular_matrix\<close>. The state of the two nested loops is the element array
  and \<^verbatim>\<open>edge_count\<close>.
\<close>

definition has_edge :: "SparseElement list \<Rightarrow> nat \<Rightarrow> nat \<Rightarrow> nat \<Rightarrow> bool" where
  "has_edge es edge_count r c \<longleftrightarrow>
     (\<exists>e\<in>set (take edge_count es). se_row e = r \<and> se_col e = c)"

definition add_edge :: "nat \<Rightarrow> nat \<Rightarrow> SparseElement list \<times> nat \<Rightarrow> SparseElement list \<times> nat" where
  "add_edge r c st =
     (case st of (es, edge_count) \<Rightarrow>
        (es[edge_count := \<lparr>se_row = r, se_col = c, se_value = 1\<rparr>], edge_count + 1))"

definition regular_edge_step ::
  "nat \<Rightarrow> nat \<Rightarrow> nat \<Rightarrow> nat \<Rightarrow> nat \<Rightarrow> SparseElement list \<times> nat
     \<Rightarrow> SparseElement list \<times> nat" where
  "regular_edge_step m dv num_edges v d st =
     (case st of (es, edge_count) \<Rightarrow>
        (let shift_increment = max 1 (m div dv);
             base_check = (v * dv + d) mod m;
             check_node = (base_check + d * shift_increment) mod m
         in if \<not> has_edge es edge_count check_node v then add_edge check_node v st
            else if edge_count < num_edges
              then (case find (\<lambda>alt. \<not> has_edge es edge_count ((check_node + alt) mod m) v)
                           [1..<m] of
                      None \<Rightarrow> st
                    | Some alt \<Rightarrow> add_edge ((check_node + alt) mod m) v st)
              else st))"

definition ldpc_create_regular_matrix :: "LDPCCodec \<Rightarrow> nat \<Rightarrow> nat \<Rightarrow> FSOErrorCode + LDPCCodec" where
  "ldpc_create_regular_matrix ldpc dv dc =
     (let m = ldpc_m ldpc; n = ldpc_n ldpc; num_edges = n * dv
      in if num_edges \<noteq> m * dc then Inl FSO_ERROR_INVALID_PARAM
         else
           (case sparse_matrix_init (int m) (int n) (int num_edges) of
              Inl e \<Rightarrow> Inl e
            | Inr H0 \<Rightarrow>
                (case fold (\<lambda>v st. fold (regular_edge_step m dv num_edges v) [0..<dv] st)
                        [0..<n] (elements H0, 0) of
                   (es, edge_count) \<Rightarrow>
                     Inr (ldpc_init_message_graph
                            (ldpc\<lparr>pc_H := sparse_matrix_to_csr
                                              (H0\<lparr>elements := es, nnz := edge_count\<rparr>)\<rparr>)))))"

definition LDPC_RATE_1_2 :: real where "LDPC_RATE_1_2 = 0.5"
definition LDPC_RATE_2_3 :: real where "LDPC_RATE_2_3 = 0.6666666666666666"
definition LDPC_RATE_3_4 :: real where "LDPC_RATE_3_4 = 0.75"
definition LDPC_RATE_5_6 :: real where "LDPC_RATE_5_6 = 0.8333333333333334"

definition ldpc_generate_standard_matrix :: "LDPCCodec \<Rightarrow> real \<Rightarrow> FSOErrorCode + LDPCCodec" where
  "ldpc_generate_standard_matrix ldpc rate =
     (if \<not> (rate > 0 \<and> rate < 1) then Inl FSO_ERROR_INVALID_PARAM
      else if \<bar>rate - LDPC_RATE_1_2\<bar> < 1 / 1000000 then ldpc_create_regular_matrix ldpc 3 6
      else if \<bar>rate - LDPC_RATE_2_3\<bar> < 1 / 1000000 then ldpc_create_regular_matrix ldpc 4 8
      else if \<bar>rate - LDPC_RATE_3_4\<bar> < 1 / 1000000 then ldpc_create_regular_matrix ldpc 5 10
      else if \<bar>rate - LDPC_RATE_5_6\<bar> < 1 / 1000000 then ldpc_create_regular_matrix ldpc 6 12
      else ldpc_create_regular_matrix ldpc 3 6)"

text \<open>
  \<^verbatim>\<open>ldpc_gaussian_elimination\<close>. \<^verbatim>\<open>H_temp\<close> is the dense copy of the matrix, one list per
  row. The loop over the columns \<open>k, \<dots>, n - 1\<close> stops as soon as \<^verbatim>\<open>pivot_row\<close> reaches
  \<open>m\<close>; as only the loop body advances \<^verbatim>\<open>pivot_row\<close>, the model lets the remaining passes
  do nothing.
\<close>

definition dense_of :: "SparseMatrix \<Rightarrow> int list list" where
  "dense_of H =
     fold (\<lambda>e ht. if se_row e < rows H \<and> se_col e < cols H
                    then ht[se_row e := (ht ! se_row e)[se_col e := se_value e]] else ht)
       (take (nnz H) (elements H)) (replicate (rows H) (replicate (cols H) 0))"

definition eliminate_row :: "nat \<Rightarrow> nat \<Rightarrow> nat \<Rightarrow> int list list \<Rightarrow> int list list" where
  "eliminate_row col pivot_row r ht =
     (if r \<noteq> pivot_row \<and> ht ! r ! col = 1
      then ht[r := map2 (XOR) (ht ! r) (ht ! pivot_row)] else ht)"

definition gauss_step :: "nat \<Rightarrow> nat \<Rightarrow> int list list \<times> nat \<Rightarrow> int list list \<times> nat" where
  "gauss_step m col st =
     (case st of (ht, pivot_row) \<Rightarrow>
        if \<not> pivot_row < m then st
        else
          (case find (\<lambda>r. ht ! r ! col = 1) [pivot_row..<m] of
             None \<Rightarrow> st
           | Some r \<Rightarrow>
               (let ht1 = (if r \<noteq> pivot_row
                           then (ht[pivot_row := ht ! r])[r := ht ! pivot_row] else ht);
                    ht2 = fold (eliminate_row col pivot_row) [0..<m] ht1
                in (ht2, pivot_row + 1))))"

definition put_element ::
  "nat \<Rightarrow> nat \<Rightarrow> nat \<Rightarrow> SparseElement list \<times> nat \<Rightarrow> SparseElement list \<times> nat" where
  "put_element cap r c st =
     (case st of (es, nnz_count) \<Rightarrow>
        if nnz_count < cap
        then (es[nnz_count := \<lparr>se_row = r, se_col = c, se_value = 1\<rparr>], nnz_count + 1)
        else st)"

definition ldpc_gaussian_elimination :: "SparseMatrix \<Rightarrow> SparseMatrix \<Rightarrow> nat \<Rightarrow> SparseMatrix" where
  "ldpc_gaussian_elimination H G k =
     (let n = cols H; m = rows H;
          ht = fst (fold (gauss_step m) [k..<n] (dense_of H, 0));
          st1 = fold (\<lambda>i st. put_element (nnz G) i i st) [0..<k] (elements G, 0);
          st2 = fold (\<lambda>i st. fold (\<lambda>j st1. if ht ! i ! j = 1
                                             then put_element (nnz G) i j st1 else st1)
                                 [k..<n] st)
                  [0..<min k m] st1
      in G\<lparr>elements := fst st2, nnz := snd st2\<rparr>)"

definition ldpc_generate_generator_matrix :: "LDPCCodec \<Rightarrow> FSOErrorCode + LDPCCodec" where
  "ldpc_generate_generator_matrix ldpc =
     (case sparse_matrix_init (int (ldpc_k ldpc)) (int (ldpc_n ldpc))
             (int (ldpc_k ldpc * ldpc_k ldpc)) of
        Inl e \<Rightarrow> Inl e
      | Inr G0 \<Rightarrow>
          Inr (ldpc\<lparr>gen_G := sparse_matrix_to_csr
                               (ldpc_gaussian_elimination (pc_H ldpc) G0 (ldpc_k ldpc))\<rparr>))"

text \<open>
  The LDPC branch of \<^verbatim>\<open>fec_init\<close>, the standard construction of a codec, for given
  contents of the two allocations of \<^verbatim>\<open>ldpc_init\<close>.
\<close>

definition fec_init_ldpc_alloc ::
  "LDPCConfig \<Rightarrow> int \<Rightarrow> int \<Rightarrow> SparseMatrix \<Rightarrow> SparseMatrix \<Rightarrow> FSOErrorCode + LDPCCodec" where
  "fec_init_ldpc_alloc config data_length code_length H_alloc G_alloc =
     (if \<not> (code_length > data_length \<and> data_length > 0) then Inl FSO_ERROR_INVALID_PARAM
      else
        (case ldpc_init config code_length data_length H_alloc G_alloc of
           Inl e \<Rightarrow> Inl e
         | Inr c0 \<Rightarrow>
             (case ldpc_generate_standard_matrix c0
                     (real_of_int data_length / real_of_int code_length) of
                Inl e \<Rightarrow> Inl e
              | Inr c1 \<Rightarrow> ldpc_generate_generator_matrix c1)))"

text \<open>
  Both matrices are initialised before they are read, so the result is the same for all
  contents of the allocations (\<open>fec_init_ldpc_alloc_independent\<close> below), and
  \<open>fec_init_ldpc\<close> is the function of the configuration and the two lengths alone.
\<close>

definition fec_init_ldpc :: "LDPCConfig \<Rightarrow> int \<Rightarrow> int \<Rightarrow> FSOErrorCode + LDPCCodec" where
  "fec_init_ldpc config data_length code_length =
     fec_init_ldpc_alloc config data_length code_length empty_matrix empty_matrix"

text \<open>
  \<^verbatim>\<open>ldpc_encode\<close>: the information bits, then for every information bit that is set the
  entries of its row of \<open>G\<close> in the parity columns are added to the parity bits.
\<close>

definition encode_row :: "LDPCCodec \<Rightarrow> uint8_t list \<Rightarrow> nat \<Rightarrow> uint8_t list \<Rightarrow> uint8_t list" where
  "encode_row ldpc data i enc =
     (if data ! i AND 1 \<noteq> 0
      then fold (\<lambda>j e. (let c = col_indices (gen_G ldpc) ! j
                         in if c \<ge> ldpc_k ldpc \<and> csr_values (gen_G ldpc) ! j = 1
                            then e[c := e ! c XOR 1] else e))
             [row_ptr (gen_G ldpc) ! i..<row_ptr (gen_G ldpc) ! (i + 1)] enc
      else enc)"

definition ldpc_encode :: "LDPCCodec \<Rightarrow> uint8_t list \<Rightarrow> nat \<Rightarrow> FSOErrorCode + uint8_t list" where
  "ldpc_encode ldpc data encoded_len =
     (if \<not> (length data = ldpc_k ldpc) then Inl FSO_ERROR_INVALID_PARAM
      else if \<not> (encoded_len \<ge> ldpc_n ldpc) then Inl FSO_ERROR_INVALID_PARAM
      else if row_ptr (gen_G ldpc) = [] then Inl FSO_ERROR_NOT_INITIALIZED
      else
        (let enc0 = replicate (ldpc_n ldpc) 0;
             enc1 = fold (\<lambda>i e. e[i := data ! i AND 1]) [0..<ldpc_k ldpc] enc0
         in Inr (fold (encode_row ldpc data) [0..<ldpc_k ldpc] enc1)))"

text \<open>
  The product \<open>H \<cdot> c\<close> over GF(2), computed row by row from the CSR arrays of \<open>H\<close> as the
  syndrome check of the codec does.
\<close>

definition syndrome_row :: "SparseMatrix \<Rightarrow> nat \<Rightarrow> int list \<Rightarrow> nat \<Rightarrow> int" where
  "syndrome_row H n bits r =
     fold (\<lambda>j s. if col_indices H ! j < n \<and> csr_values H ! j = 1
                  then s XOR bits ! (col_indices H ! j) else s)
       [row_ptr H ! r..<row_ptr H ! (r + 1)] 0"

definition parity_checks :: "LDPCCodec \<Rightarrow> uint8_t list \<Rightarrow> int list" where
  "parity_checks ldpc c = map (syndrome_row (pc_H ldpc) (ldpc_n ldpc) (map uint c)) [0..<ldpc_m ldpc]"

section \<open>LDPC codec: belief-propagation decoder (ldpc.c)\<close>

text \<open>
  A \<^verbatim>\<open>double\<close> is modelled by a real number. The two numeric blocks of
  \<^verbatim>\<open>ldpc_update_check_messages\<close> are named: \<open>phi_value\<close> is applied to the magnitude of an
  incoming message, \<open>message_magnitude\<close> to the sum of these values.
\<close>

definition phi_value :: "real \<Rightarrow> real" where
  "phi_value abs_msg =
     (if abs_msg < 1 / 10 ^ 10 then 10
      else if abs_msg > 10 then exp (- abs_msg)
      else (let tanh_val = tanh (abs_msg / 2)
            in if tanh_val > 1 / 10 ^ 10 then - ln tanh_val else 10))"

definition message_magnitude :: "real \<Rightarrow> real" where
  "message_magnitude sum_phi =
     (if sum_phi < 1 / 10 ^ 10 then 10
      else if sum_phi > 10 then exp (- sum_phi)
      else (let tanh_val = exp (- sum_phi)
            in if tanh_val < 1 - 1 / 10 ^ 10 then 2 * artanh tanh_val else 10))"

text \<open>
  The message of check node \<open>c\<close> along its edge number \<open>e\<close>: sign and sum are collected
  from the other edges of the node. The incoming message of variable \<open>v2\<close> is read from
  cell \<open>v2 * m + c\<close> of \<^verbatim>\<open>variable_to_check\<close>.
\<close>

definition check_message :: "LDPCCodec \<Rightarrow> nat \<Rightarrow> nat \<Rightarrow> real" where
  "check_message ldpc c e =
     (let n = ldpc_n ldpc; m = ldpc_m ldpc;
          connected_vars = check_to_var_edges ldpc ! c;
          acc = fold (\<lambda>e2 (product_sign, sum_phi).
                   if e2 = e then (product_sign, sum_phi)
                   else if connected_vars ! e2 \<ge> n then (product_sign, sum_phi)
                   else if connected_vars ! e2 * m + c \<ge> n * m then (product_sign, sum_phi)
                   else
                     (let msg = variable_to_check ldpc ! (connected_vars ! e2 * m + c)
                      in ((if msg < 0 then product_sign * (- 1) else product_sign),
                          sum_phi + phi_value \<bar>msg\<bar>)))
                 [0..<check_degree ldpc ! c] (1, 0)
      in fst acc * message_magnitude (snd acc))"

definition ldpc_update_check_messages :: "LDPCCodec \<Rightarrow> LDPCCodec" where
  "ldpc_update_check_messages ldpc =
     (let n = ldpc_n ldpc; m = ldpc_m ldpc
      in ldpc\<lparr>check_to_variable :=
           fold (\<lambda>c c2v.
                   fold (\<lambda>e c2v1.
                           (let v = check_to_var_edges ldpc ! c ! e
                            in if v \<ge> n then c2v1
                               else if c * n + v < n * m
                                 then c2v1[c * n + v := check_message ldpc c e]
                                 else c2v1))
                     [0..<check_degree ldpc ! c] c2v)
             [0..<m] (check_to_variable ldpc)\<rparr>)"

text \<open>
  The message of variable node \<open>v\<close> along its edge number \<open>e\<close>; it is written to cell
  \<open>v * m + e\<close> of \<^verbatim>\<open>variable_to_check\<close>.
\<close>

definition variable_message :: "LDPCCodec \<Rightarrow> nat \<Rightarrow> nat \<Rightarrow> real" where
  "variable_message ldpc v e =
     (let n = ldpc_n ldpc; m = ldpc_m ldpc;
          connected_checks = var_to_check_edges ldpc ! v
      in fold (\<lambda>e2 msg_sum.
                 if e2 = e then msg_sum
                 else if connected_checks ! e2 \<ge> m then msg_sum
                 else if connected_checks ! e2 * n + v < n * m
                   then msg_sum + check_to_variable ldpc ! (connected_checks ! e2 * n + v)
                   else msg_sum)
           [0..<var_degree ldpc ! v] (channel_llr ldpc ! v))"

definition ldpc_update_variable_messages :: "LDPCCodec \<Rightarrow> LDPCCodec" where
  "ldpc_update_variable_messages ldpc =
     (let n = ldpc_n ldpc; m = ldpc_m ldpc
      in ldpc\<lparr>variable_to_check :=
           fold (\<lambda>v v2c.
                   fold (\<lambda>e v2c1.
                           if var_to_check_edges ldpc ! v ! e \<ge> m then v2c1
                           else if v * m + e < n * m
                             then v2c1[v * m + e := variable_message ldpc v e]
                             else v2c1)
                     [0..<var_degree ldpc ! v] v2c)
             [0..<n] (variable_to_check ldpc)\<rparr>)"

definition posterior_value :: "LDPCCodec \<Rightarrow> nat \<Rightarrow> real" where
  "posterior_value ldpc v =
     (let n = ldpc_n ldpc; m = ldpc_m ldpc
      in if var_degree ldpc ! v > 0 \<and> var_to_check_edges ldpc ! v \<noteq> []
         then fold (\<lambda>e posterior.
                      if var_to_check_edges ldpc ! v ! e \<ge> m then posterior
                      else if var_to_check_edges ldpc ! v ! e * n + v < n * m
                        then posterior
                               + check_to_variable ldpc ! (var_to_check_edges ldpc ! v ! e * n + v)
                        else posterior)
                [0..<var_degree ldpc ! v] (channel_llr ldpc ! v)
         else channel_llr ldpc ! v)"

definition ldpc_update_posteriors :: "LDPCCodec \<Rightarrow> LDPCCodec" where
  "ldpc_update_posteriors ldpc =
     ldpc\<lparr>posterior_llr :=
            fold (\<lambda>v p. p[v := posterior_value ldpc v]) [0..<ldpc_n ldpc] (posterior_llr ldpc),
          decoded_bits :=
            fold (\<lambda>v d. d[v := (if posterior_value ldpc v < 0 then 1 else 0)])
              [0..<ldpc_n ldpc] (decoded_bits ldpc)\<rparr>"

text \<open>
  \<^verbatim>\<open>ldpc_calculate_syndrome\<close>, by rows of the CSR arrays when they are allocated and
  element by element otherwise.
\<close>

definition ldpc_calculate_syndrome :: "LDPCCodec \<Rightarrow> LDPCCodec" where
  "ldpc_calculate_syndrome ldpc =
     (let H = pc_H ldpc; n = ldpc_n ldpc; m = ldpc_m ldpc;
          s0 = fold (\<lambda>i s. s[i := 0]) [0..<m] (syndrome ldpc)
      in if row_ptr H \<noteq> [] \<and> col_indices H \<noteq> []
         then ldpc\<lparr>syndrome :=
                fold (\<lambda>r s. s[r := syndrome_row H n (decoded_bits ldpc) r]) [0..<m] s0\<rparr>
         else ldpc\<lparr>syndrome :=
                fold (\<lambda>e s. if se_row e < m \<and> se_col e < n \<and> se_value e = 1
                              then s[se_row e := s ! se_row e XOR decoded_bits ldpc ! se_col e]
                              else s)
                  (take (nnz H) (elements H)) s0\<rparr>)"

definition ldpc_check_convergence :: "LDPCCodec \<Rightarrow> bool" where
  "ldpc_check_convergence ldpc = list_all (\<lambda>i. syndrome ldpc ! i = 0) [0..<ldpc_m ldpc]"

definition bp_iteration :: "LDPCCodec \<Rightarrow> LDPCCodec" where
  "bp_iteration ldpc =
     ldpc_calculate_syndrome
       (ldpc_update_posteriors (ldpc_update_variable_messages (ldpc_update_check_messages ldpc)))"

text \<open>
  The loop of \<^verbatim>\<open>ldpc_decode\<close> over at most \<^verbatim>\<open>max_iterations\<close> passes, leaving at the first
  pass after which the syndrome is zero. The result is the local flag \<^verbatim>\<open>converged\<close> and
  the codec.
\<close>

fun bp_loop :: "nat \<Rightarrow> LDPCCodec \<Rightarrow> bool \<times> LDPCCodec" where
  "bp_loop 0 ldpc = (False, ldpc)"
| "bp_loop (Suc remaining) ldpc =
     (let ldpc1 = bp_iteration ldpc
      in if ldpc_check_convergence ldpc1 then (True, ldpc1) else bp_loop remaining ldpc1)"

text \<open>The codec as \<^verbatim>\<open>ldpc_decode\<close> prepares it before the first pass.\<close>

definition decode_start :: "LDPCCodec \<Rightarrow> uint8_t list \<Rightarrow> LDPCCodec" where
  "decode_start ldpc received =
     (let n = ldpc_n ldpc; m = ldpc_m ldpc;
          llr = fold (\<lambda>i l. l[i := (if received ! i = 0 then 10 else - 10)]) [0..<n]
                  (channel_llr ldpc);
          v2c = fold (\<lambda>v a. fold (\<lambda>e a1. if v * m + e < n * m then a1[v * m + e := llr ! v]
                                           else a1)
                               [0..<var_degree ldpc ! v] a)
                  [0..<n] (variable_to_check ldpc)
      in ldpc\<lparr>channel_llr := llr, variable_to_check := v2c,
              check_to_variable := replicate (n * m) 0\<rparr>)"

text \<open>
  \<^verbatim>\<open>ldpc_decode\<close>. \<open>decoded_len\<close> is the capacity of the output buffer and \<open>want_count\<close>
  says whether the pointer \<^verbatim>\<open>errors_corrected\<close> is given. On \<^verbatim>\<open>FSO_SUCCESS\<close> the caller
  has the \<open>k\<close> decoded bytes and, if asked for, the count; the codec is returned as well
  because its work arrays have changed. The flag \<^verbatim>\<open>converged\<close> only goes to the log.
\<close>

definition ldpc_decode ::
  "LDPCCodec \<Rightarrow> uint8_t list \<Rightarrow> nat \<Rightarrow> bool
     \<Rightarrow> FSOErrorCode + (uint8_t list \<times> int option \<times> LDPCCodec)" where
  "ldpc_decode ldpc received decoded_len want_count =
     (if \<not> (length received = ldpc_n ldpc) then Inl FSO_ERROR_INVALID_PARAM
      else if \<not> (decoded_len \<ge> ldpc_k ldpc) then Inl FSO_ERROR_INVALID_PARAM
      else if var_to_check_edges ldpc = [] \<or> check_to_var_edges ldpc = []
        then Inl FSO_ERROR_NOT_INITIALIZED
      else
        (case bp_loop (nat (max_iterations ldpc)) (decode_start ldpc received) of
           (converged, ldpc1) \<Rightarrow>
             (let decoded = map (\<lambda>i. word_of_int (decoded_bits ldpc1 ! i)) [0..<ldpc_k ldpc];
                  errors_corrected =
                    fold (\<lambda>i cnt. if decoded ! i \<noteq> received ! i then cnt + 1 else cnt)
                      [0..<ldpc_k ldpc] 0
              in Inr (decoded, (if want_count then Some errors_corrected else None), ldpc1))))"

section \<open>Channel model (channel.c, channel.h)\<close>

text \<open>
  A \<^verbatim>\<open>double\<close> of the channel model is a real number: the functions below are studied on
  finite values only, and rounding is left out. \<^verbatim>\<open>pow\<close> is \<open>powr\<close> and \<^verbatim>\<open>log10\<close> is
  \<open>log 10\<close>. The constant \<^verbatim>\<open>FSO_PI\<close> of fso.h is a decimal literal.
\<close>

datatype WeatherCondition =
  WEATHER_CLEAR | WEATHER_FOG | WEATHER_RAIN | WEATHER_SNOW | WEATHER_HIGH_TURBULENCE

definition FSO_PI :: real where
  "FSO_PI = 3.14159265358979323846"

definition DEFAULT_CN2_CLEAR :: real where "DEFAULT_CN2_CLEAR = 1 / 10 ^ 15"
definition DEFAULT_CN2_FOG :: real where "DEFAULT_CN2_FOG = 5 / 10 ^ 15"
definition DEFAULT_CN2_RAIN :: real where "DEFAULT_CN2_RAIN = 1 / 10 ^ 14"
definition DEFAULT_CN2_SNOW :: real where "DEFAULT_CN2_SNOW = 2 / 10 ^ 14"
definition DEFAULT_CN2_HIGH_TURB :: real where "DEFAULT_CN2_HIGH_TURB = 1 / 10 ^ 13"
definition DEFAULT_CORRELATION_TIME :: real where "DEFAULT_CORRELATION_TIME = 0.001"
definition DEFAULT_HISTORY_LENGTH :: int where "DEFAULT_HISTORY_LENGTH = 100"
definition DEFAULT_BEAM_DIVERGENCE :: real where "DEFAULT_BEAM_DIVERGENCE = 1 / 10 ^ 3"

definition MIN_DISTANCE :: real where "MIN_DISTANCE = 100"
definition MAX_DISTANCE :: real where "MAX_DISTANCE = 10000"
definition MIN_WAVELENGTH :: real where "MIN_WAVELENGTH = 500 / 10 ^ 9"
definition MAX_WAVELENGTH :: real where "MAX_WAVELENGTH = 2000 / 10 ^ 9"
definition MIN_CN2 :: real where "MIN_CN2 = 1 / 10 ^ 17"
definition MAX_CN2 :: real where "MAX_CN2 = 1 / 10 ^ 12"

text \<open>
  The pointer \<^verbatim>\<open>fade_history\<close>: null, a buffer with its cells, or a pointer left behind by
  \<^verbatim>\<open>free\<close>.
\<close>

datatype fade_buffer = Null_buffer | Buffer "real list" | Freed_buffer

record ChannelModel =
  link_distance :: real
  wavelength :: real
  beam_divergence :: real
  weather :: WeatherCondition
  cn2 :: real
  temperature :: real
  humidity :: real
  visibility :: real
  rainfall_rate :: real
  snowfall_rate :: real
  fade_history :: fade_buffer
  history_length :: int
  history_index :: int
  correlation_time :: real
  last_fade_value :: real
  rytov_variance :: real
  scintillation_index :: real
  path_loss_db :: real
  attenuation_db :: real
  rng_seed :: "32 word"
  initialized :: int

text \<open>A result code is \<open>None\<close> for \<^verbatim>\<open>FSO_SUCCESS\<close> and the error otherwise.\<close>

definition channel_get_default_cn2 :: "WeatherCondition \<Rightarrow> real" where
  "channel_get_default_cn2 w =
     (case w of
        WEATHER_CLEAR \<Rightarrow> DEFAULT_CN2_CLEAR
      | WEATHER_FOG \<Rightarrow> DEFAULT_CN2_FOG
      | WEATHER_RAIN \<Rightarrow> DEFAULT_CN2_RAIN
      | WEATHER_SNOW \<Rightarrow> DEFAULT_CN2_SNOW
      | WEATHER_HIGH_TURBULENCE \<Rightarrow> DEFAULT_CN2_HIGH_TURB)"

definition channel_validate_params :: "real \<Rightarrow> real \<Rightarrow> real \<Rightarrow> FSOErrorCode option" where
  "channel_validate_params distance wl cn2_value =
     (if distance < MIN_DISTANCE \<or> distance > MAX_DISTANCE then Some FSO_ERROR_INVALID_PARAM
      else if wl < MIN_WAVELENGTH \<or> wl > MAX_WAVELENGTH then Some FSO_ERROR_INVALID_PARAM
      else if cn2_value < MIN_CN2 \<or> cn2_value > MAX_CN2 then Some FSO_ERROR_INVALID_PARAM
      else None)"

definition channel_calculate_rytov_variance :: "real \<Rightarrow> real \<Rightarrow> real \<Rightarrow> real" where
  "channel_calculate_rytov_variance cn2_value wl distance =
     (let k = 2 * FSO_PI / wl;
          k_power = k powr (7 / 6);
          L_power = distance powr (11 / 6)
      in 0.5 * cn2_value * k_power * L_power)"

definition channel_calculate_scintillation_index :: "real \<Rightarrow> real" where
  "channel_calculate_scintillation_index rytov =
     (if rytov < 0.3 then 4 * rytov
      else (let scint_index = exp (4 * rytov) - 1
            in if scint_index > 10 then 10 else scint_index))"

definition calculate_fog_attenuation :: "real \<Rightarrow> real \<Rightarrow> real" where
  "calculate_fog_attenuation vis wl =
     (let V_km = vis / 1000;
          V_km1 = (if V_km < 0.01 then 0.01 else V_km);
          lambda_nm = wl * 10 ^ 9;
          q = 1.3;
          wavelength_factor = (lambda_nm / 550) powr (- q)
      in (3.91 / V_km1) * wavelength_factor)"

definition calculate_rain_attenuation :: "real \<Rightarrow> real" where
  "calculate_rain_attenuation rate =
     (if rate \<le> 0 then 0 else 1.076 * rate powr 0.67)"

definition calculate_snow_attenuation :: "real \<Rightarrow> real" where
  "calculate_snow_attenuation rate =
     (if rate \<le> 0 then 0 else 1.023 * rate powr 0.72)"

definition calculate_clear_air_attenuation :: real where
  "calculate_clear_air_attenuation = 0.1"

definition channel_calculate_attenuation :: "ChannelModel \<Rightarrow> real" where
  "channel_calculate_attenuation channel =
     (if initialized channel = 0 then 0
      else
        (case weather channel of
           WEATHER_CLEAR \<Rightarrow> calculate_clear_air_attenuation
         | WEATHER_FOG \<Rightarrow> calculate_fog_attenuation (visibility channel) (wavelength channel)
         | WEATHER_RAIN \<Rightarrow>
             calculate_rain_attenuation (rainfall_rate channel) + calculate_clear_air_attenuation
         | WEATHER_SNOW \<Rightarrow>
             calculate_snow_attenuation (snowfall_rate channel) + calculate_clear_air_attenuation
         | WEATHER_HIGH_TURBULENCE \<Rightarrow> calculate_clear_air_attenuation))"

definition channel_calculate_path_loss :: "real \<Rightarrow> real \<Rightarrow> real" where
  "channel_calculate_path_loss distance wl =
     (let ratio = (4 * FSO_PI * distance) / wl
      in 20 * log 10 ratio)"

text \<open>
  \<^verbatim>\<open>channel_update_calculations\<close> returns its result code and leaves the channel updated in
  place; the model returns both.
\<close>

definition channel_update_calculations :: "ChannelModel \<Rightarrow> FSOErrorCode option \<times> ChannelModel" where
  "channel_update_calculations channel =
     (if initialized channel = 0 then (Some FSO_ERROR_NOT_INITIALIZED, channel)
      else
        (let c1 = channel\<lparr>rytov_variance :=
                    channel_calculate_rytov_variance (cn2 channel) (wavelength channel)
                      (link_distance channel)\<rparr>;
             c2 = c1\<lparr>scintillation_index :=
                    channel_calculate_scintillation_index (rytov_variance c1)\<rparr>;
             c3 = c2\<lparr>path_loss_db :=
                    channel_calculate_path_loss (link_distance c2) (wavelength c2)\<rparr>;
             c4 = c3\<lparr>attenuation_db := channel_calculate_attenuation c3\<rparr>
         in (None, c4)))"

text \<open>The structure after \<^verbatim>\<open>memset(channel, 0, sizeof(ChannelModel))\<close>.\<close>

definition cleared_channel :: ChannelModel where
  "cleared_channel =
     \<lparr>link_distance = 0, wavelength = 0, beam_divergence = 0, weather = WEATHER_CLEAR,
      cn2 = 0, temperature = 0, humidity = 0, visibility = 0, rainfall_rate = 0,
      snowfall_rate = 0, fade_history = Null_buffer, history_length = 0, history_index = 0,
      correlation_time = 0, last_fade_value = 0, rytov_variance = 0,
      scintillation_index = 0, path_loss_db = 0, attenuation_db = 0, rng_seed = 0,
      initialized = 0\<rparr>"

text \<open>
  \<^verbatim>\<open>channel_init_extended\<close>. \<open>alloc_ok\<close> says whether \<^verbatim>\<open>calloc\<close> succeeds and \<open>now\<close> is the
  value of \<^verbatim>\<open>(unsigned int)time(NULL)\<close>; the seed of the random generator of the thread,
  which the function also sets, is not part of the channel and is left out.
\<close>

definition channel_init_extended ::
  "ChannelModel \<Rightarrow> real \<Rightarrow> real \<Rightarrow> WeatherCondition \<Rightarrow> real \<Rightarrow> real \<Rightarrow> bool \<Rightarrow> 32 word
     \<Rightarrow> FSOErrorCode option \<times> ChannelModel" where
  "channel_init_extended channel distance wl w cn2_value corr_time alloc_ok now =
     (case channel_validate_params distance wl cn2_value of
        Some e \<Rightarrow> (Some e, channel)
      | None \<Rightarrow>
          if \<not> (corr_time > 0 \<and> corr_time < 1) then (Some FSO_ERROR_INVALID_PARAM, channel)
          else
            (let c1 = cleared_channel\<lparr>link_distance := distance, wavelength := wl,
                        beam_divergence := DEFAULT_BEAM_DIVERGENCE, weather := w,
                        cn2 := cn2_value, temperature := 20, humidity := 0.5,
                        visibility := 1000, rainfall_rate := 0, snowfall_rate := 0\<rparr>;
                 c2 = (case w of
                         WEATHER_FOG \<Rightarrow> c1\<lparr>visibility := 200\<rparr>
                       | WEATHER_RAIN \<Rightarrow> c1\<lparr>rainfall_rate := 10\<rparr>
                       | WEATHER_SNOW \<Rightarrow> c1\<lparr>snowfall_rate := 5\<rparr>
                       | WEATHER_HIGH_TURBULENCE \<Rightarrow> c1\<lparr>cn2 := DEFAULT_CN2_HIGH_TURB\<rparr>
                       | WEATHER_CLEAR \<Rightarrow> c1);
                 c3 = c2\<lparr>correlation_time := corr_time,
                         history_length := DEFAULT_HISTORY_LENGTH, history_index := 0,
                         last_fade_value := 1\<rparr>
             in if \<not> alloc_ok then (Some FSO_ERROR_MEMORY, c3)
                else
                  (let c4 = c3\<lparr>fade_history :=
                               Buffer (replicate (nat (history_length c3)) 1),
                             rng_seed := now\<rparr>
                   in case channel_update_calculations c4 of
                        (Some e, c5) \<Rightarrow> (Some e, c5\<lparr>fade_history := Freed_buffer\<rparr>)
                      | (None, c5) \<Rightarrow> (None, c5\<lparr>initialized := 1\<rparr>))))"

definition channel_init ::
  "ChannelModel \<Rightarrow> real \<Rightarrow> real \<Rightarrow> WeatherCondition \<Rightarrow> bool \<Rightarrow> 32 word
     \<Rightarrow> FSOErrorCode option \<times> ChannelModel" where
  "channel_init channel distance wl w alloc_ok now =
     (let cn2_value = channel_get_default_cn2 w
      in case channel_validate_params distance wl cn2_value of
           Some e \<Rightarrow> (Some e, channel)
         | None \<Rightarrow>
             channel_init_extended channel distance wl w cn2_value DEFAULT_CORRELATION_TIME
               alloc_ok now)"

section \<open>Modulation (ook.c, dpsk.c, ppm.c, math\_utils.c)\<close>

text \<open>
  Symbols are finite \<^verbatim>\<open>double\<close>s and are modelled by real numbers, without rounding. The
  signal-to-noise ratio that the caller passes is any \<^verbatim>\<open>double\<close>. The symbol buffer that
  a modulator writes is the list of the symbols written; its capacity is not checked by
  the code.
\<close>

definition double_le :: "double \<Rightarrow> double \<Rightarrow> bool" where
  "double_le a b \<longleftrightarrow> double_less a b \<or> (a = b \<and> a \<noteq> NaN)"

subsection \<open>On-off keying\<close>

text \<open>
  \<^verbatim>\<open>ook_modulate\<close>; \<open>ook_modulate_bit\<close> is the body of the loop over the bits of a byte.
\<close>

definition ook_modulate_bit :: "uint8_t \<Rightarrow> nat \<Rightarrow> real list \<Rightarrow> real list" where
  "ook_modulate_bit byte bit_idx symbols =
     (let bit = drop_bit bit_idx byte AND 1
      in symbols @ [if bit \<noteq> 0 then 1 else 0])"

definition ook_modulate :: "uint8_t list \<Rightarrow> FSOErrorCode + real list" where
  "ook_modulate data =
     (if \<not> length data > 0 then Inl FSO_ERROR_INVALID_PARAM
      else Inr (fold (\<lambda>byte_idx. fold (ook_modulate_bit (data ! byte_idx)) (rev [0..<8]))
                  [0..<length data] []))"

text \<open>
  \<^verbatim>\<open>fso_db_to_linear\<close> and \<^verbatim>\<open>ook_calculate_threshold\<close>. For a ratio that is not a number
  every comparison of C is false and the threshold is not a number. For \<open>-\<infinity>\<close> the linear
  ratio is 0, the noise variance \<open>+\<infinity>\<close>, and the threshold is clamped to 0.7.
\<close>

definition fso_db_to_linear :: "real \<Rightarrow> real" where
  "fso_db_to_linear db_value = 10 powr (db_value / 10)"

definition ook_calculate_threshold :: "double \<Rightarrow> double" where
  "ook_calculate_threshold snr =
     (case snr of
        NaN \<Rightarrow> NaN
      | PosInf \<Rightarrow> Finite 0.5
      | NegInf \<Rightarrow> Finite 0.7
      | Finite x \<Rightarrow>
          if x \<ge> 10 then Finite 0.5
          else
            (let snr_linear = fso_db_to_linear x;
                 signal_power = 0.5;
                 noise_variance = signal_power / snr_linear;
                 threshold = 0.5 + 0.1 * noise_variance;
                 threshold1 = (if threshold > 0.7 then 0.7 else threshold);
                 threshold2 = (if threshold1 < 0.3 then 0.3 else threshold1)
             in Finite threshold2))"

text \<open>
  \<^verbatim>\<open>ook_demodulate\<close>. The state of the loop over the bytes is the running index
  \<^verbatim>\<open>symbol_idx\<close> and the bytes written so far; the state of the loop over the bits is the
  running index and the byte.
\<close>

definition ook_demodulate_bit ::
  "double \<Rightarrow> real list \<Rightarrow> nat \<Rightarrow> nat \<times> uint8_t \<Rightarrow> nat \<times> uint8_t" where
  "ook_demodulate_bit threshold symbols bit_idx st =
     (case st of (symbol_idx, byte) \<Rightarrow>
        (symbol_idx + 1,
         if double_le threshold (Finite (symbols ! symbol_idx))
         then byte OR push_bit bit_idx 1 else byte))"

definition ook_demodulate_byte ::
  "double \<Rightarrow> real list \<Rightarrow> nat \<Rightarrow> nat \<times> uint8_t list \<Rightarrow> nat \<times> uint8_t list" where
  "ook_demodulate_byte threshold symbols byte_idx st =
     (case st of (symbol_idx, data) \<Rightarrow>
        (case fold (ook_demodulate_bit threshold symbols) (rev [0..<8]) (symbol_idx, 0) of
           (symbol_idx1, byte) \<Rightarrow> (symbol_idx1, data @ [byte])))"

definition ook_demodulate :: "real list \<Rightarrow> double \<Rightarrow> FSOErrorCode + uint8_t list" where
  "ook_demodulate symbols snr =
     (if \<not> length symbols > 0 then Inl FSO_ERROR_INVALID_PARAM
      else if \<not> length symbols mod 8 = 0 then Inl FSO_ERROR_INVALID_PARAM
      else
        (let threshold = ook_calculate_threshold snr;
             num_bytes = length symbols div 8
         in Inr (snd (fold (ook_demodulate_byte threshold symbols) [0..<num_bytes] (0, [])))))"

subsection \<open>Differential phase shift keying\<close>

record ComplexSample =
  cs_real :: real
  cs_imag :: real

record DPSKState =
  last_phase :: real
  dpsk_initialized :: int

definition fso_complex_mul :: "ComplexSample \<Rightarrow> ComplexSample \<Rightarrow> ComplexSample" where
  "fso_complex_mul a b =
     \<lparr>cs_real = cs_real a * cs_real b - cs_imag a * cs_imag b,
      cs_imag = cs_real a * cs_imag b + cs_imag a * cs_real b\<rparr>"

definition fso_complex_conjugate :: "ComplexSample \<Rightarrow> ComplexSample" where
  "fso_complex_conjugate c = \<lparr>cs_real = cs_real c, cs_imag = - cs_imag c\<rparr>"

definition fso_complex_from_polar :: "real \<Rightarrow> real \<Rightarrow> ComplexSample" where
  "fso_complex_from_polar magnitude phase =
     \<lparr>cs_real = magnitude * cos phase, cs_imag = magnitude * sin phase\<rparr>"

text \<open>\<^verbatim>\<open>atan2\<close> of math.h on real numbers, and \<^verbatim>\<open>fso_complex_phase\<close>.\<close>

definition atan2 :: "real \<Rightarrow> real \<Rightarrow> real" where
  "atan2 y x =
     (if x > 0 then arctan (y / x)
      else if x < 0 \<and> y \<ge> 0 then arctan (y / x) + pi
      else if x < 0 then arctan (y / x) - pi
      else if y > 0 then pi / 2
      else if y < 0 then - (pi / 2)
      else 0)"

definition fso_complex_phase :: "ComplexSample \<Rightarrow> real" where
  "fso_complex_phase c = atan2 (cs_imag c) (cs_real c)"

text \<open>
  The two loops that wrap the phase into the range from \<open>-FSO_PI\<close> to \<open>FSO_PI\<close>. On real
  numbers both loops end.
\<close>

function wrap_above :: "real \<Rightarrow> real" where
  "wrap_above phase = (if phase > FSO_PI then wrap_above (phase - 2 * FSO_PI) else phase)"
  by pat_completeness auto
termination
proof (relation "measure (\<lambda>p. nat \<lceil>(p - FSO_PI) / (2 * FSO_PI)\<rceil>)")
  show "wf (measure (\<lambda>p. nat \<lceil>(p - FSO_PI) / (2 * FSO_PI)\<rceil>))"
    by simp
next
  fix phase :: real
  assume gt: "FSO_PI < phase"
  have pos: "0 < FSO_PI"
    by (simp add: FSO_PI_def)
  have eq: "(phase - 2 * FSO_PI - FSO_PI) / (2 * FSO_PI) = (phase - FSO_PI) / (2 * FSO_PI) - 1"
    using pos by (simp add: field_simps)
  have "0 < (phase - FSO_PI) / (2 * FSO_PI)"
    using gt pos by simp
  then have "0 < \<lceil>(phase - FSO_PI) / (2 * FSO_PI)\<rceil>"
    by (simp add: less_ceiling_iff)
  then have "nat (\<lceil>(phase - FSO_PI) / (2 * FSO_PI)\<rceil> - 1)
      < nat \<lceil>(phase - FSO_PI) / (2 * FSO_PI)\<rceil>"
    by linarith
  then show "(phase - 2 * FSO_PI, phase) \<in> measure (\<lambda>p. nat \<lceil>(p - FSO_PI) / (2 * FSO_PI)\<rceil>)"
    unfolding in_measure eq ceiling_diff_one .
qed

function wrap_below :: "real \<Rightarrow> real" where
  "wrap_below phase = (if phase < - FSO_PI then wrap_below (phase + 2 * FSO_PI) else phase)"
  by pat_completeness auto
termination
proof (relation "measure (\<lambda>p. nat \<lceil>(- FSO_PI - p) / (2 * FSO_PI)\<rceil>)")
  show "wf (measure (\<lambda>p. nat \<lceil>(- FSO_PI - p) / (2 * FSO_PI)\<rceil>))"
    by simp
next
  fix phase :: real
  assume lt: "phase < - FSO_PI"
  have pos: "0 < FSO_PI"
    by (simp add: FSO_PI_def)
  have eq: "(- FSO_PI - (phase + 2 * FSO_PI)) / (2 * FSO_PI)
      = (- FSO_PI - phase) / (2 * FSO_PI) - 1"
    using pos by (simp add: field_simps)
  have "0 < (- FSO_PI - phase) / (2 * FSO_PI)"
    using lt pos by simp
  then have "0 < \<lceil>(- FSO_PI - phase) / (2 * FSO_PI)\<rceil>"
    by (simp add: less_ceiling_iff)
  then have "nat (\<lceil>(- FSO_PI - phase) / (2 * FSO_PI)\<rceil> - 1)
      < nat \<lceil>(- FSO_PI - phase) / (2 * FSO_PI)\<rceil>"
    by linarith
  then show "(phase + 2 * FSO_PI, phase)
      \<in> measure (\<lambda>p. nat \<lceil>(- FSO_PI - p) / (2 * FSO_PI)\<rceil>)"
    unfolding in_measure eq ceiling_diff_one .
qed

declare wrap_above.simps [simp del]
declare wrap_below.simps [simp del]

text \<open>
  \<^verbatim>\<open>dpsk_modulate\<close> returns the symbols and leaves the last phase in the state; the model
  returns both. The state of the loops is the current phase and the symbols written.
\<close>

definition dpsk_modulate_bit ::
  "uint8_t \<Rightarrow> nat \<Rightarrow> real \<times> ComplexSample list \<Rightarrow> real \<times> ComplexSample list" where
  "dpsk_modulate_bit byte bit_idx st =
     (case st of (current_phase, symbols) \<Rightarrow>
        (let bit = drop_bit bit_idx byte AND 1;
             phase_change = (if bit \<noteq> 0 then FSO_PI else 0);
             phase1 = wrap_below (wrap_above (current_phase + phase_change))
         in (phase1, symbols @ [fso_complex_from_polar 1 phase1])))"

definition dpsk_modulate ::
  "uint8_t list \<Rightarrow> DPSKState \<Rightarrow> FSOErrorCode + (ComplexSample list \<times> DPSKState)" where
  "dpsk_modulate data state =
     (if \<not> length data > 0 then Inl FSO_ERROR_INVALID_PARAM
      else
        (let state1 = (if dpsk_initialized state = 0
                       then state\<lparr>last_phase := 0, dpsk_initialized := 1\<rparr> else state);
             phase0 = (if dpsk_initialized state = 0 then 0 else last_phase state)
         in case fold (\<lambda>byte_idx. fold (dpsk_modulate_bit (data ! byte_idx)) (rev [0..<8]))
                   [0..<length data] (phase0, []) of
              (current_phase, symbols) \<Rightarrow>
                Inr (symbols, state1\<lparr>last_phase := current_phase\<rparr>)))"

text \<open>
  \<^verbatim>\<open>dpsk_demodulate\<close> returns the bytes and the state. The state of the loops is the previous
  symbol, the running index and the byte or the bytes written.
\<close>

definition dpsk_demodulate_bit ::
  "ComplexSample list \<Rightarrow> nat \<Rightarrow> ComplexSample \<times> nat \<times> uint8_t
     \<Rightarrow> ComplexSample \<times> nat \<times> uint8_t" where
  "dpsk_demodulate_bit symbols bit_idx st =
     (case st of (prev_symbol, symbol_idx, byte) \<Rightarrow>
        (let current_symbol = symbols ! symbol_idx;
             diff = fso_complex_mul current_symbol (fso_complex_conjugate prev_symbol)
         in (current_symbol, symbol_idx + 1,
             if cs_real diff < 0 then byte OR push_bit bit_idx 1 else byte)))"

definition dpsk_demodulate_byte ::
  "ComplexSample list \<Rightarrow> nat \<Rightarrow> ComplexSample \<times> nat \<times> uint8_t list
     \<Rightarrow> ComplexSample \<times> nat \<times> uint8_t list" where
  "dpsk_demodulate_byte symbols byte_idx st =
     (case st of (prev_symbol, symbol_idx, data) \<Rightarrow>
        (case fold (dpsk_demodulate_bit symbols) (rev [0..<8]) (prev_symbol, symbol_idx, 0) of
           (prev_symbol1, symbol_idx1, byte) \<Rightarrow> (prev_symbol1, symbol_idx1, data @ [byte])))"

definition dpsk_demodulate ::
  "ComplexSample list \<Rightarrow> DPSKState \<Rightarrow> FSOErrorCode + (uint8_t list \<times> DPSKState)" where
  "dpsk_demodulate symbols state =
     (if \<not> length symbols > 0 then Inl FSO_ERROR_INVALID_PARAM
      else if \<not> length symbols mod 8 = 0 then Inl FSO_ERROR_INVALID_PARAM
      else
        (let num_bytes = length symbols div 8;
             state1 = (if dpsk_initialized state = 0 then state\<lparr>dpsk_initialized := 1\<rparr>
                       else state);
             prev0 = (if dpsk_initialized state = 0 then fso_complex_from_polar 1 0
                      else fso_complex_from_polar 1 (last_phase state))
         in case fold (dpsk_demodulate_byte symbols) [0..<num_bytes] (prev0, 0, []) of
              (prev_symbol, symbol_idx, data) \<Rightarrow>
                Inr (data, state1\<lparr>last_phase := fso_complex_phase prev_symbol\<rparr>)))"

subsection \<open>Pulse position modulation\<close>

definition ppm_bits_per_symbol :: "int \<Rightarrow> int" where
  "ppm_bits_per_symbol ppm_order =
     (if ppm_order = 2 then 1
      else if ppm_order = 4 then 2
      else if ppm_order = 8 then 3
      else if ppm_order = 16 then 4
      else - 1)"

text \<open>
  \<^verbatim>\<open>extract_bits\<close>. The state of the loop is \<^verbatim>\<open>byte_idx\<close>, \<^verbatim>\<open>bit_in_byte\<close>, \<^verbatim>\<open>result\<close> and
  \<^verbatim>\<open>bits_extracted\<close>. \<^verbatim>\<open>bit_in_byte\<close> is \<^verbatim>\<open>bit_offset % 8\<close> in the first pass and 0 in the
  others, so it is below 8 in every pass; the loop condition of the model says so, which
  is what the termination proof needs.
\<close>

function extract_bits_loop ::
  "uint8_t list \<Rightarrow> nat \<Rightarrow> nat \<times> nat \<times> uint8_t \<times> nat \<Rightarrow> uint8_t" where
  "extract_bits_loop data num_bits (byte_idx, bit_in_byte, result, bits_extracted) =
     (if bits_extracted < num_bits \<and> bit_in_byte < 8
      then
        (let bits_available = 8 - bit_in_byte;
             bits_to_extract = min (num_bits - bits_extracted) bits_available;
             mask = push_bit bits_to_extract 1 - 1;
             bits = drop_bit (bits_available - bits_to_extract) (data ! byte_idx) AND mask;
             result1 = push_bit bits_to_extract result OR bits
         in extract_bits_loop data num_bits
              (byte_idx + 1, 0, result1, bits_extracted + bits_to_extract))
      else result)"
  by pat_completeness auto
termination
  by (relation "measure (\<lambda>(data, num_bits, byte_idx, bit_in_byte, result, bits_extracted).
                           num_bits - bits_extracted)")
    (auto simp: min_def)

declare extract_bits_loop.simps [simp del]

definition extract_bits :: "uint8_t list \<Rightarrow> nat \<Rightarrow> nat \<Rightarrow> uint8_t" where
  "extract_bits data bit_offset num_bits =
     extract_bits_loop data num_bits (bit_offset div 8, bit_offset mod 8, 0, 0)"

text \<open>\<^verbatim>\<open>insert_bits\<close>, with the state \<^verbatim>\<open>byte_idx\<close>, \<^verbatim>\<open>bit_in_byte\<close>, the buffer and
  \<^verbatim>\<open>bits_inserted\<close>.\<close>

function insert_bits_loop ::
  "uint8_t \<Rightarrow> nat \<Rightarrow> nat \<times> nat \<times> uint8_t list \<times> nat \<Rightarrow> uint8_t list" where
  "insert_bits_loop bits num_bits (byte_idx, bit_in_byte, data, bits_inserted) =
     (if bits_inserted < num_bits \<and> bit_in_byte < 8
      then
        (let bits_available = 8 - bit_in_byte;
             bits_to_insert = min (num_bits - bits_inserted) bits_available;
             mask = push_bit bits_to_insert 1 - 1;
             bits_value = drop_bit (num_bits - bits_inserted - bits_to_insert) bits AND mask;
             clear_mask = NOT (push_bit (bits_available - bits_to_insert) mask);
             data1 = data[byte_idx := data ! byte_idx AND clear_mask];
             data2 = data1[byte_idx := data1 ! byte_idx
                                        OR push_bit (bits_available - bits_to_insert) bits_value]
         in insert_bits_loop bits num_bits
              (byte_idx + 1, 0, data2, bits_inserted + bits_to_insert))
      else data)"
  by pat_completeness auto
termination
  by (relation "measure (\<lambda>(bits, num_bits, byte_idx, bit_in_byte, data, bits_inserted).
                           num_bits - bits_inserted)")
    (auto simp: min_def)

declare insert_bits_loop.simps [simp del]

definition insert_bits :: "uint8_t list \<Rightarrow> nat \<Rightarrow> uint8_t \<Rightarrow> nat \<Rightarrow> uint8_t list" where
  "insert_bits data bit_offset bits num_bits =
     insert_bits_loop bits num_bits (bit_offset div 8, bit_offset mod 8, data, 0)"

text \<open>
  \<^verbatim>\<open>ppm_modulate\<close>. The state of the loop over the symbols is \<^verbatim>\<open>bit_offset\<close>,
  \<^verbatim>\<open>slot_offset\<close> and the slots.
\<close>

definition ppm_modulate_symbol ::
  "uint8_t list \<Rightarrow> nat \<Rightarrow> nat \<Rightarrow> nat \<Rightarrow> nat \<times> nat \<times> real list \<Rightarrow> nat \<times> nat \<times> real list" where
  "ppm_modulate_symbol data bits_per_sym ppm_order sym_idx st =
     (case st of (bit_offset, slot_offset, symbols) \<Rightarrow>
        (let total_bits = length data * 8;
             bits =
               (if bit_offset + bits_per_sym \<le> total_bits
                then extract_bits data bit_offset bits_per_sym
                else
                  (let remaining_bits = int total_bits - int bit_offset
                   in if remaining_bits > 0
                      then push_bit (bits_per_sym - nat remaining_bits)
                             (extract_bits data bit_offset (nat remaining_bits))
                      else 0));
             pulse_slot = unat bits
         in (bit_offset + bits_per_sym, slot_offset + ppm_order,
             symbols[slot_offset + pulse_slot := 1])))"

definition ppm_modulate :: "uint8_t list \<Rightarrow> int \<Rightarrow> FSOErrorCode + real list" where
  "ppm_modulate data ppm_order =
     (if \<not> length data > 0 then Inl FSO_ERROR_INVALID_PARAM
      else if \<not> (ppm_order = 2 \<or> ppm_order = 4 \<or> ppm_order = 8 \<or> ppm_order = 16)
        then Inl FSO_ERROR_INVALID_PARAM
      else
        (let bits_per_sym = nat (ppm_bits_per_symbol ppm_order);
             total_bits = length data * 8;
             num_symbols = (total_bits + bits_per_sym - 1) div bits_per_sym;
             total_slots = num_symbols * nat ppm_order
         in case fold (ppm_modulate_symbol data bits_per_sym (nat ppm_order)) [0..<num_symbols]
                   (0, 0, replicate total_slots 0) of
              (bit_offset, slot_offset, symbols) \<Rightarrow> Inr symbols))"

text \<open>
  \<^verbatim>\<open>ppm_demodulate\<close>. The remainder \<^verbatim>\<open>symbol_len % ppm_order\<close> is taken before the order is
  checked: for the order 0 it is undefined in C and the model returns \<open>None\<close>; otherwise
  the order is converted to \<^verbatim>\<open>size_t\<close> (of 64 bits) for the remainder.
  \<open>ppm_find_slot\<close> is the loop that looks for the slot of highest energy.
\<close>

definition ppm_find_slot :: "real list \<Rightarrow> nat \<Rightarrow> nat \<Rightarrow> nat" where
  "ppm_find_slot symbols slot_offset ppm_order =
     fst (fold (\<lambda>slot (max_slot, max_value).
                  if symbols ! (slot_offset + slot) > max_value
                  then (slot, symbols ! (slot_offset + slot)) else (max_slot, max_value))
            [1..<ppm_order] (0, symbols ! slot_offset))"

definition ppm_demodulate_symbol ::
  "real list \<Rightarrow> nat \<Rightarrow> nat \<Rightarrow> nat \<Rightarrow> nat \<Rightarrow> nat \<times> nat \<times> uint8_t list
     \<Rightarrow> nat \<times> nat \<times> uint8_t list" where
  "ppm_demodulate_symbol symbols bits_per_sym ppm_order total_bits sym_idx st =
     (case st of (bit_offset, slot_offset, data) \<Rightarrow>
        (let max_slot = ppm_find_slot symbols slot_offset ppm_order;
             bits = (of_nat max_slot :: uint8_t);
             data1 =
               (if bit_offset + bits_per_sym \<le> total_bits
                then insert_bits data bit_offset bits bits_per_sym
                else
                  (let remaining_bits = int total_bits - int bit_offset
                   in if remaining_bits > 0
                      then insert_bits data bit_offset
                             (drop_bit (bits_per_sym - nat remaining_bits) bits)
                             (nat remaining_bits)
                      else data))
         in (bit_offset + bits_per_sym, slot_offset + ppm_order, data1)))"

definition ppm_demodulate :: "real list \<Rightarrow> int \<Rightarrow> (FSOErrorCode + uint8_t list) option" where
  "ppm_demodulate symbols ppm_order =
     (if \<not> length symbols > 0 then Some (Inl FSO_ERROR_INVALID_PARAM)
      else if ppm_order = 0 then None
      else if \<not> length symbols mod nat (ppm_order mod 18446744073709551616) = 0
        then Some (Inl FSO_ERROR_INVALID_PARAM)
      else if \<not> (ppm_order = 2 \<or> ppm_order = 4 \<or> ppm_order = 8 \<or> ppm_order = 16)
        then Some (Inl FSO_ERROR_INVALID_PARAM)
      else
        (let bits_per_sym = nat (ppm_bits_per_symbol ppm_order);
             num_symbols = length symbols div nat ppm_order;
             total_bits = num_symbols * bits_per_sym;
             num_bytes = (total_bits + 7) div 8
         in case fold (ppm_demodulate_symbol symbols bits_per_sym (nat ppm_order) total_bits)
                   [0..<num_symbols] (0, 0, replicate num_bytes 0) of
              (bit_offset, slot_offset, data) \<Rightarrow> Some (Inr data)))"

section \<open>Concrete instances used in the evaluations\<close>

definition RS_7_3_config :: RSConfig where
  "RS_7_3_config =
     \<lparr>cfg_symbol_size = 3, cfg_num_roots = 4, cfg_first_root = 1,
      cfg_primitive_poly = 0xb, cfg_fcr = 1\<rparr>"

definition GF_8 :: GaloisField where
  "GF_8 =
     \<lparr>symbol_size = 3, field_size = 8, primitive_poly = 0xb,
      exp_table = [1, 2, 4, 3, 6, 7, 5, 1, 2, 4, 3, 6, 7, 5, 0, 0],
      log_table = [0, 0, 1, 3, 2, 6, 4, 5],
      inv_table = [0, 1, 5, 6, 7, 2, 3, 4]\<rparr>"

definition RS_7_3 :: RSCodec where
  "RS_7_3 =
     \<lparr>gf = GF_8, rs_n = 7, rs_k = 3, rs_t = 2, num_roots = 4, first_root = 1, fcr = 1,
      generator_poly = [3, 2, 1, 3, 1], gen_poly_degree = 4\<rparr>"

definition symbol_weight :: "uint8_t list \<Rightarrow> nat" where
  "symbol_weight e = length (filter (\<lambda>x. x \<noteq> 0) e)"


definition LDPC_config_1 :: LDPCConfig where
  "LDPC_config_1 = \<lparr>cfg_max_iterations = 1, cfg_convergence_threshold = 0\<rparr>"

text \<open>The codec that \<^verbatim>\<open>fec_init\<close> builds for 4 information bits and 8 code bits.\<close>

definition H_8_4 :: SparseMatrix where
  "H_8_4 =
     \<lparr>rows = 4, cols = 8, nnz = 24,
      elements =
        [\<lparr>se_row = 0, se_col = 0, se_value = 1\<rparr>,
         \<lparr>se_row = 0, se_col = 1, se_value = 1\<rparr>,
         \<lparr>se_row = 0, se_col = 2, se_value = 1\<rparr>,
         \<lparr>se_row = 0, se_col = 4, se_value = 1\<rparr>,
         \<lparr>se_row = 0, se_col = 5, se_value = 1\<rparr>,
         \<lparr>se_row = 0, se_col = 6, se_value = 1\<rparr>,
         \<lparr>se_row = 1, se_col = 0, se_value = 1\<rparr>,
         \<lparr>se_row = 1, se_col = 1, se_value = 1\<rparr>,
         \<lparr>se_row = 1, se_col = 3, se_value = 1\<rparr>,
         \<lparr>se_row = 1, se_col = 4, se_value = 1\<rparr>,
         \<lparr>se_row = 1, se_col = 5, se_value = 1\<rparr>,
         \<lparr>se_row = 1, se_col = 7, se_value = 1\<rparr>,
         \<lparr>se_row = 2, se_col = 0, se_value = 1\<rparr>,
         \<lparr>se_row = 2, se_col = 2, se_value = 1\<rparr>,
         \<lparr>se_row = 2, se_col = 3, se_value = 1\<rparr>,
         \<lparr>se_row = 2, se_col = 4, se_value = 1\<rparr>,
         \<lparr>se_row = 2, se_col = 6, se_value = 1\<rparr>,
         \<lparr>se_row = 2, se_col = 7, se_value = 1\<rparr>,
         \<lparr>se_row = 3, se_col = 1, se_value = 1\<rparr>,
         \<lparr>se_row = 3, se_col = 2, se_value = 1\<rparr>,
         \<lparr>se_row = 3, se_col = 3, se_value = 1\<rparr>,
         \<lparr>se_row = 3, se_col = 5, se_value = 1\<rparr>,
         \<lparr>se_row = 3, se_col = 6, se_value = 1\<rparr>,
         \<lparr>se_row = 3, se_col = 7, se_value = 1\<rparr>],
      row_ptr = [0, 6, 12, 18, 24],
      col_indices = [0, 1, 2, 4, 5, 6, 0, 1, 3, 4, 5, 7, 0, 2, 3, 4, 6, 7, 1, 2, 3, 5, 6, 7],
      csr_values = replicate 24 1\<rparr>"

definition G_8_4 :: SparseMatrix where
  "G_8_4 =
     \<lparr>rows = 4, cols = 8, nnz = 8,
      elements =
        [\<lparr>se_row = 0, se_col = 0, se_value = 1\<rparr>,
         \<lparr>se_row = 0, se_col = 4, se_value = 1\<rparr>,
         \<lparr>se_row = 1, se_col = 1, se_value = 1\<rparr>,
         \<lparr>se_row = 1, se_col = 5, se_value = 1\<rparr>,
         \<lparr>se_row = 2, se_col = 2, se_value = 1\<rparr>,
         \<lparr>se_row = 2, se_col = 6, se_value = 1\<rparr>,
         \<lparr>se_row = 3, se_col = 3, se_value = 1\<rparr>,
         \<lparr>se_row = 3, se_col = 7, se_value = 1\<rparr>,
         \<lparr>se_row = 0, se_col = 0, se_value = 0\<rparr>,
         \<lparr>se_row = 0, se_col = 0, se_value = 0\<rparr>,
         \<lparr>se_row = 0, se_col = 0, se_value = 0\<rparr>,
         \<lparr>se_row = 0, se_col = 0, se_value = 0\<rparr>,
         \<lparr>se_row = 0, se_col = 0, se_value = 0\<rparr>,
         \<lparr>se_row = 0, se_col = 0, se_value = 0\<rparr>,
         \<lparr>se_row = 0, se_col = 0, se_value = 0\<rparr>,
         \<lparr>se_row = 0, se_col = 0, se_value = 0\<rparr>],
      row_ptr = [0, 2, 4, 6, 8],
      col_indices = [0, 4, 1, 5, 2, 6, 3, 7, 0, 0, 0, 0, 0, 0, 0, 0],
      csr_values = [1, 1, 1, 1, 1, 1, 1, 1, 0, 0, 0, 0, 0, 0, 0, 0]\<rparr>"

definition LDPC_8_4 :: LDPCCodec where
  "LDPC_8_4 =
     \<lparr>ldpc_n = 8, ldpc_k = 4, ldpc_m = 4, code_rate = 1 / 2, max_iterations = 1,
      convergence_threshold = 1 / 1000000, pc_H = H_8_4, gen_G = G_8_4,
      variable_to_check = replicate 32 0, check_to_variable = replicate 32 0,
      posterior_llr = replicate 8 0, channel_llr = replicate 8 0,
      decoded_bits = replicate 8 0, syndrome = replicate 4 0,
      var_degree = [3, 3, 3, 3, 3, 3, 3, 3], check_degree = [6, 6, 6, 6],
      var_to_check_edges = [[0, 1, 2], [0, 1, 3], [0, 2, 3], [1, 2, 3], [0, 1, 2], [0, 1, 3], [0, 2, 3], [1, 2, 3]],
      check_to_var_edges = [[0, 1, 2, 4, 5, 6], [0, 1, 3, 4, 5, 7], [0, 2, 3, 4, 6, 7], [1, 2, 3, 5, 6, 7]]\<rparr>"

text \<open>
  A received word for this codec, and the codec as \<^verbatim>\<open>ldpc_decode\<close> has prepared it for
  this word when the first pass begins.
\<close>

definition received_8_4 :: "uint8_t list" where
  "received_8_4 = [0, 1, 1, 1, 0, 0, 0, 0]"

definition start_8_4 :: LDPCCodec where
  "start_8_4 = LDPC_8_4\<lparr>channel_llr := [10, - 10, - 10, - 10, 10, 10, 10, 10],
     variable_to_check :=
       [10, 10, 10, 0, - 10, - 10, - 10, 0, - 10, - 10, - 10, 0, - 10, - 10, - 10, 0,
        10, 10, 10, 0, 10, 10, 10, 0, 10, 10, 10, 0, 10, 10, 10, 0],
     check_to_variable := replicate 32 0\<rparr>"



subsection \<open>Bit streams, phases and fixtures of the modulators\<close>

text \<open>
  The properties of the modulators are stated on the bits of a byte sequence, most
  significant bit of every byte first: \<open>bits_of\<close>. \<open>level\<close> is the OOK symbol of a bit and
  \<open>bit_flag\<close> the value that a detected bit adds to the byte that is being assembled.
\<close>

definition bits8 :: "uint8_t \<Rightarrow> bool list" where
  "bits8 w = map (bit w) [7, 6, 5, 4, 3, 2, 1, 0]"

definition bits_of :: "uint8_t list \<Rightarrow> bool list" where
  "bits_of data = concat (map bits8 data)"

definition level :: "bool \<Rightarrow> real" where
  "level b = (if b then 1 else 0)"

definition bit_flag :: "bool \<Rightarrow> nat \<Rightarrow> uint8_t" where
  "bit_flag c j = (if c then push_bit j 1 else 0)"

text \<open>
  \<open>ones\<close> counts the bits that are set in a byte sequence, and \<open>flip_first\<close> inverts the
  first bit of the sequence, the most significant bit of its first byte.
\<close>

definition ones :: "uint8_t list \<Rightarrow> nat" where
  "ones data = length (filter id (bits_of data))"

fun flip_first :: "uint8_t list \<Rightarrow> uint8_t list" where
  "flip_first [] = []"
| "flip_first (w # ws) = (w XOR 0x80) # ws"

text \<open>
  The phase that a DPSK modulator reaches from the phase \<open>p\<close> by sending one bit, as long as
  \<open>p\<close> is in the range from \<open>-FSO_PI\<close> to \<open>FSO_PI\<close>; the phases of a sequence of bits; and the
  bits that differential detection reads from a sequence of symbols, given the symbol
  before them.
\<close>

definition next_phase :: "real \<Rightarrow> bool \<Rightarrow> real" where
  "next_phase p b = (if b then (if p > 0 then p - FSO_PI else p + FSO_PI) else p)"

fun phases :: "real \<Rightarrow> bool list \<Rightarrow> real list" where
  "phases p [] = []"
| "phases p (b # bs) = next_phase p b # phases (next_phase p b) bs"

fun differential_bits :: "ComplexSample \<Rightarrow> ComplexSample list \<Rightarrow> bool list" where
  "differential_bits prev [] = []"
| "differential_bits prev (s # ss) =
     (cs_real (fso_complex_mul s (fso_complex_conjugate prev)) < 0) # differential_bits s ss"

text \<open>
  \<open>put_field old s k f\<close> is the byte \<open>old\<close> with the \<open>k\<close> bits from position \<open>s\<close> on replaced by
  the low \<open>k\<close> bits of \<open>f\<close>: what one pass of the loop of \<^verbatim>\<open>insert_bits\<close> stores.
\<close>

definition put_field :: "uint8_t \<Rightarrow> nat \<Rightarrow> nat \<Rightarrow> uint8_t \<Rightarrow> uint8_t" where
  "put_field old s k f = (old AND NOT (push_bit s (mask k))) OR push_bit s (f AND mask k)"

text \<open>The DPSK state that \<^verbatim>\<open>modulator_init\<close> leaves for \<^verbatim>\<open>MOD_DPSK\<close>.\<close>

definition dpsk_fresh :: DPSKState where
  "dpsk_fresh = \<lparr>last_phase = 0, dpsk_initialized = 0\<rparr>"

section \<open>Reed--Solomon encoder: results\<close>

lemma fold_update_take:
  "\<forall>i\<in>set js. k \<le> f i \<Longrightarrow>
   take k (fold (\<lambda>i e. e[f i := g i e]) js e0) = take k e0"
  by (induction js arbitrary: e0) auto

lemma fold_update_length:
  "length (fold (\<lambda>i e. e[f i := g i e]) js e0) = length e0"
  by (induction js arbitrary: e0) auto

lemma fold_copy_prefix:
  "k \<le> length e0 \<Longrightarrow> k \<le> length d \<Longrightarrow>
   take k (fold (\<lambda>i e. e[i := d ! i]) [0..<k] e0) = take k d"
proof (induction k)
  case 0
  then show ?case by simp
next
  case (Suc k)
  have len: "length (fold (\<lambda>i e. e[i := d ! i]) [0..<k] e0) = length e0"
    by (simp add: fold_update_length)
  from Suc show ?case
    by (simp add: take_Suc_conv_app_nth len)
qed

lemma rs_generate_fields:
  "rs_generate_generator_polynomial rs = Inr rs' \<Longrightarrow>
   rs_n rs' = rs_n rs \<and> rs_k rs' = rs_k rs \<and> num_roots rs' = num_roots rs"
  by (auto simp: rs_generate_generator_polynomial_def split: option.splits prod.splits)

lemma rs_init_fields:
  "rs_init a cfg n k = Inr rs \<Longrightarrow>
   rs_n rs = n \<and> rs_k rs = k \<and> n > k \<and> k > 0 \<and> num_roots rs = n - k"
  by (auto simp: rs_init_def split: if_splits sum.splits dest!: rs_generate_fields)

lemma gf_init_GF_8: "gf_init True 3 0xb = Inr GF_8"
  by code_simp

lemma rs_init_RS_7_3: "rs_init True RS_7_3_config 7 3 = Inr RS_7_3"
  by code_simp

lemma rs_encode_RS_7_3_100: "rs_encode RS_7_3 [1, 0, 0] 7 = Inr [1, 0, 0, 0, 2, 6, 5]"
  by code_simp

lemma rs_encode_RS_7_3_000: "rs_encode RS_7_3 [0, 0, 0] 7 = Inr [0, 0, 0, 0, 0, 0, 0]"
  by code_simp

text \<open>
  C8. For a codec set up by \<^verbatim>\<open>rs_init\<close> for the lengths \<open>n\<close> and \<open>k\<close>, a successful
  \<^verbatim>\<open>rs_encode\<close> of the information symbols \<open>u\<close> yields \<open>n\<close> symbols of which the first \<open>k\<close>
  are \<open>u\<close> itself: the encoding is systematic.
\<close>

theorem rs_encode_systematic:
  assumes "rs_init a cfg n k = Inr rs" and "rs_encode rs u cap = Inr c"
  shows "length c = nat n \<and> take (nat k) c = u"
proof -
  from assms(1) have f: "rs_n rs = n" "rs_k rs = k" "n > k" "k > 0"
    using rs_init_fields by blast+
  from assms(2) f have lu: "length u = nat k"
    by (auto simp: rs_encode_def split: if_splits)
  define e0 where
    "e0 = fold (\<lambda>i enc. enc[i := u ! i]) [0..<nat k] (replicate (nat n) (0::uint8_t))"
  define e1 where "e1 = fold (\<lambda>i enc. enc[i := 0]) [nat k..<nat n] e0"
  have l0: "length e0 = nat n"
    unfolding e0_def by (simp add: fold_update_length)
  have t0: "take (nat k) e0 = u"
    unfolding e0_def using fold_copy_prefix [of "nat k" "replicate (nat n) 0" u] f lu by simp
  have l1: "length e1 = nat n"
    unfolding e1_def by (simp add: fold_update_length l0)
  have t1: "take (nat k) e1 = u"
    unfolding e1_def by (simp add: fold_update_take t0)
  from assms(2) obtain tmp where c:
    "c = fold (\<lambda>i enc. enc[nat k + i := word_of_int (tmp ! (nat k + i))])
           [0..<nat (num_roots rs)] e1"
    by (auto simp: rs_encode_def Let_def f e0_def e1_def split: if_splits)
  have "length c = nat n"
    unfolding c by (simp add: fold_update_length l1)
  moreover have "take (nat k) c = u"
    unfolding c by (simp add: fold_update_take t1)
  ultimately show ?thesis by simp
qed

theorem rs_encode_systematic_witness:
  "rs_init True RS_7_3_config 7 3 = Inr RS_7_3
   \<and> rs_encode RS_7_3 [1, 0, 0] 7 = Inr [1, 0, 0, 0, 2, 6, 5]
   \<and> length [1, 0, 0, 0, 2, 6, 5 :: uint8_t] = nat 7
   \<and> take (nat 3) [1, 0, 0, 0, 2, 6, 5 :: uint8_t] = [1, 0, 0]"
  using rs_encode_systematic [OF rs_init_RS_7_3 rs_encode_RS_7_3_100]
    rs_init_RS_7_3 rs_encode_RS_7_3_100
  by simp

text \<open>
  C1. The codec RS(7,3) over GF(8) (polynomial \<open>0xb\<close>, first root index 1) corrects
  \<open>t = 2\<close> symbol errors according to the claim. The encoder maps the information words
  \<open>[1,0,0]\<close> and \<open>[0,0,0]\<close> to code words that differ in four places only, so two error
  patterns of weight two turn both into the same received word \<open>[0,0,0,0,0,6,5]\<close>.
  Whatever \<^verbatim>\<open>rs_decode\<close> returns for that word, it is wrong for one of the two.
\<close>

theorem rs_encode_weight_two_collision:
  "rs_init True RS_7_3_config 7 3 = Inr RS_7_3
   \<and> rs_t RS_7_3 = 2
   \<and> rs_encode RS_7_3 [1, 0, 0] 7 = Inr [1, 0, 0, 0, 2, 6, 5]
   \<and> rs_encode RS_7_3 [0, 0, 0] 7 = Inr [0, 0, 0, 0, 0, 0, 0]
   \<and> symbol_weight [1, 0, 0, 0, 2, 0, 0] = 2
   \<and> symbol_weight [0, 0, 0, 0, 0, 6, 5] = 2
   \<and> map2 (XOR) [1, 0, 0, 0, 2, 6, 5] [1, 0, 0, 0, 2, 0, 0 :: uint8_t] = [0, 0, 0, 0, 0, 6, 5]
   \<and> map2 (XOR) [0, 0, 0, 0, 0, 0, 0] [0, 0, 0, 0, 0, 6, 5 :: uint8_t] = [0, 0, 0, 0, 0, 6, 5]"
proof -
  have "rs_t RS_7_3 = 2"
    by (simp add: RS_7_3_def)
  then show ?thesis
    by (simp add: rs_init_RS_7_3 rs_encode_RS_7_3_100 rs_encode_RS_7_3_000 symbol_weight_def)
qed

section \<open>Galois field set-up: results\<close>

text \<open>
  C7. \<^verbatim>\<open>gf_init\<close> for \<open>m = 3\<close> with the polynomial \<open>0x13\<close>, which has degree 4, does not
  return \<^verbatim>\<open>FSO_ERROR_INVALID_PARAM\<close>: both parameter checks pass, the tables are allocated
  and \<^verbatim>\<open>gf_build_tables\<close> stores behind the end of the logarithm table. The degree test of
  \<^verbatim>\<open>rs_is_primitive_poly_valid\<close> rejects the same pair.
\<close>

theorem gf_init_wrong_degree_not_rejected:
  "gf_init True 3 0x13 = Inl Out_Of_Bounds \<and> rs_is_primitive_poly_valid 3 0x13 = 0"
  by code_simp

section \<open>Misalignment detection: results\<close>



section \<open>Galois field tables: results\<close>

lemma gf_mul_no_table_2: "gf_mul_no_table v 2 poly q = xtimes poly q v"
proof -
  have "gf_mul_no_table_loop v 2 poly q 0 =
        gf_mul_no_table_loop (if 2 * v \<ge> q then (2 * v) XOR poly else 2 * v) 1 poly q 0"
    by (subst gf_mul_no_table_loop.simps) (simp add: Let_def push_bit_eq_mult mult.commute)
  also have "\<dots> = gf_mul_no_table_loop
       (let a = (if 2 * v \<ge> q then (2 * v) XOR poly else 2 * v);
            a1 = push_bit 1 a in if a1 \<ge> q then a1 XOR poly else a1) 0 poly q
       (if 2 * v \<ge> q then (2 * v) XOR poly else 2 * v)"
    by (subst gf_mul_no_table_loop.simps) (simp add: Let_def)
  also have "\<dots> = (if 2 * v \<ge> q then (2 * v) XOR poly else 2 * v)"
    by (subst gf_mul_no_table_loop.simps) simp
  finally show ?thesis
    by (simp add: gf_mul_no_table_def xtimes_def)
qed

lemma pow2_and_below: 
  fixes a :: int
  assumes "0 \<le> a" "a < 2 ^ m"
  shows "2 ^ m AND a = 0"
proof -
  have a: "take_bit m a = a" using assms by (simp add: take_bit_int_eq_self)
  have "\<not> bit a m"
  proof
    assume "bit a m"
    then have "bit (take_bit m a) m" by (simp add: a)
    then show False by (simp add: bit_take_bit_iff)
  qed
  then show ?thesis
    by (intro bit_eqI) (auto simp: bit_simps)
qed

lemma xor_top_bit_clears:
  fixes a b :: int
  assumes "2 ^ m \<le> a" "a < 2 ^ (m + 1)" "2 ^ m \<le> b" "b < 2 ^ (m + 1)"
  shows "0 \<le> a XOR b \<and> a XOR b < 2 ^ m"
proof -
  define a' where "a' = a - 2 ^ m"
  define b' where "b' = b - 2 ^ m"
  have ra: "0 \<le> a'" "a' < 2 ^ m" and rb: "0 \<le> b'" "b' < 2 ^ m"
    using assms by (simp_all add: a'_def b'_def)
  have "a = 2 ^ m + a'" by (simp add: a'_def)
  also have "\<dots> = 2 ^ m XOR a'"
    by (rule disjunctive_add_eq_xor) (rule pow2_and_below [OF ra])
  finally have a: "a = 2 ^ m XOR a'" .
  have "b = 2 ^ m + b'" by (simp add: b'_def)
  also have "\<dots> = 2 ^ m XOR b'"
    by (rule disjunctive_add_eq_xor) (rule pow2_and_below [OF rb])
  finally have b: "b = 2 ^ m XOR b'" .
  have "a XOR b = (2 ^ m XOR 2 ^ m) XOR (a' XOR b')"
    unfolding a b by (simp only: xor.assoc xor.left_commute xor.commute)
  then have "a XOR b = a' XOR b'" by simp
  with ra rb show ?thesis
    by (simp add: XOR_upper)
qed

lemma bit_length_loop_upper:
  "0 \<le> t \<Longrightarrow> t < 2 ^ n \<Longrightarrow> bit_length_loop t d \<le> d + int n"
proof (induction n arbitrary: t d)
  case 0
  then have "t = 0" by simp
  then show ?case by (subst bit_length_loop.simps) simp
next
  case (Suc n)
  show ?case
  proof (cases "t > 0")
    case True
    have "t div 2 < 2 ^ n" using Suc.prems by simp
    moreover have "0 \<le> t div 2" using Suc.prems by simp
    ultimately have "bit_length_loop (t div 2) (d + 1) \<le> d + 1 + int n"
      using Suc.IH by blast
    with True show ?thesis
      by (subst bit_length_loop.simps) (simp add: drop_bit_eq_div)
  next
    case False
    then show ?thesis by (subst bit_length_loop.simps) simp
  qed
qed

lemma bit_length_loop_lower:
  "2 ^ n \<le> t \<Longrightarrow> d + int n + 1 \<le> bit_length_loop t d"
proof (induction n arbitrary: t d)
  case 0
  then have "t > 0" by simp
  then have "bit_length_loop t d = bit_length_loop (drop_bit 1 t) (d + 1)"
    by (subst bit_length_loop.simps) simp
  moreover have "d + 1 \<le> bit_length_loop u (d + 1)" for u
  proof (induction u "d + 1" arbitrary: d rule: bit_length_loop.induct)
    case (1 temp)
    show ?case
    proof (cases "temp > 0")
      case True
      with 1 [of "d + 1"] show ?thesis
        by (subst bit_length_loop.simps) simp
    next
      case False
      then show ?thesis by (subst bit_length_loop.simps) simp
    qed
  qed
  ultimately show ?case by simp
next
  case (Suc n)
  then have pos: "t > 0"
    by (smt (verit) zero_less_power)
  have "2 ^ n \<le> t div 2" using Suc.prems by simp
  then have "d + 1 + int n + 1 \<le> bit_length_loop (t div 2) (d + 1)"
    using Suc.IH by blast
  with pos show ?case
    by (subst bit_length_loop.simps) (simp add: drop_bit_eq_div)
qed

lemma valid_poly_range:
  assumes "rs_is_primitive_poly_valid m poly = 1"
  shows "3 \<le> m \<and> m \<le> 16 \<and> 2 ^ nat m \<le> poly \<and> poly < 2 ^ (nat m + 1)"
proof -
  from assms have m: "3 \<le> m" "m \<le> 16" and p: "poly > 0"
    and bl: "bit_length_loop poly 0 = m + 1"
    by (auto simp: rs_is_primitive_poly_valid_def RS_MAX_SYMBOL_SIZE_def split: if_splits)
  have "2 ^ nat m \<le> poly"
  proof (rule ccontr)
    assume "\<not> 2 ^ nat m \<le> poly"
    then have "poly < 2 ^ nat m" by simp
    with p have "bit_length_loop poly 0 \<le> 0 + int (nat m)"
      by (intro bit_length_loop_upper) simp_all
    with bl m show False by simp
  qed
  moreover have "poly < 2 ^ (nat m + 1)"
  proof (rule ccontr)
    assume "\<not> poly < 2 ^ (nat m + 1)"
    then have "2 ^ (nat m + 1) \<le> poly" by simp
    then have "0 + int (nat m + 1) + 1 \<le> bit_length_loop poly 0"
      by (rule bit_length_loop_lower)
    with bl m show False by simp
  qed
  ultimately show ?thesis using m by simp
qed

lemma xtimes_range:
  assumes "2 ^ m \<le> poly" "poly < 2 ^ (m + 1)" "0 \<le> v" "v < 2 ^ m"
  shows "0 \<le> xtimes poly (2 ^ m) v \<and> xtimes poly (2 ^ m) v < 2 ^ m"
proof (cases "2 * v \<ge> 2 ^ m")
  case True
  have "2 * v < 2 ^ (m + 1)" using assms by simp
  with True assms xor_top_bit_clears [of m "2 * v" poly]
  show ?thesis by (simp add: xtimes_def)
next
  case False
  with assms show ?thesis by (simp add: xtimes_def)
qed

lemma alpha_power_Suc: "alpha_power poly q (Suc i) = xtimes poly q (alpha_power poly q i)"
  by (simp add: alpha_power_def)

lemma alpha_power_add:
  "alpha_power poly q (i + d) = (xtimes poly q ^^ d) (alpha_power poly q i)"
  by (simp add: alpha_power_def funpow_add add.commute)

lemma alpha_power_range:
  assumes "2 ^ m \<le> poly" "poly < 2 ^ (m + 1)" and m: "0 < m"
  shows "0 \<le> alpha_power poly (2 ^ m) i \<and> alpha_power poly (2 ^ m) i < 2 ^ m"
proof (induction i)
  case 0
  from m have "(1::int) < 2 ^ m"
    by (simp add: one_less_power)
  then show ?case by (simp add: alpha_power_def)
next
  case (Suc i)
  with xtimes_range [OF assms(1,2), of "alpha_power poly (2 ^ m) i"] show ?case
    by (simp add: alpha_power_Suc)
qed

lemma xtimes_funpow_zero: "0 < q \<Longrightarrow> (xtimes poly q ^^ d) 0 = 0"
  by (induction d) (simp_all add: xtimes_def)

lemma alpha_power_nonzero:
  assumes "0 < q" "alpha_power poly q n = 1" "i \<le> n"
  shows "alpha_power poly q i \<noteq> 0"
proof
  assume z: "alpha_power poly q i = 0"
  from assms(3) have "alpha_power poly q n = alpha_power poly q (i + (n - i))" by simp
  also have "\<dots> = 0"
    unfolding alpha_power_add z using assms(1) by (rule xtimes_funpow_zero)
  finally show False using assms(2) by simp
qed

lemma alpha_power_inj:
  assumes one: "alpha_power poly q n = 1"
    and first: "\<forall>i\<in>{1..<n}. alpha_power poly q i \<noteq> 1"
    and ij: "i < j" "j < n"
  shows "alpha_power poly q i \<noteq> alpha_power poly q j"
proof
  assume eq: "alpha_power poly q i = alpha_power poly q j"
  have "alpha_power poly q (i + (n - j)) = alpha_power poly q (j + (n - j))"
    unfolding alpha_power_add eq ..
  with ij one have "alpha_power poly q (i + (n - j)) = 1" by simp
  moreover from ij have "i + (n - j) \<in> {1..<n}" by auto
  ultimately show False using first by blast
qed

lemma alpha_power_surj:
  assumes rng: "2 ^ m \<le> poly" "poly < 2 ^ (m + 1)"
    and one: "alpha_power poly (2 ^ m) (2 ^ m - 1) = 1"
    and first: "\<forall>i\<in>{1..<2 ^ m - 1}. alpha_power poly (2 ^ m) i \<noteq> 1"
    and x: "1 \<le> x" "x < 2 ^ m"
  shows "\<exists>i<2 ^ m - 1. alpha_power poly (2 ^ m) i = x"
proof -
  let ?n = "2 ^ m - 1 :: nat"
  let ?s = "alpha_power poly (2 ^ m)"
  have m: "0 < m"
    using x by (cases m) simp_all
  have inj: "inj_on ?s {0..<?n}"
  proof (rule inj_onI)
    fix i j assume "i \<in> {0..<?n}" "j \<in> {0..<?n}" "?s i = ?s j"
    then show "i = j"
      using alpha_power_inj [OF one first, of i j] alpha_power_inj [OF one first, of j i]
      by (cases i j rule: linorder_cases) auto
  qed
  have sub: "?s ` {0..<?n} \<subseteq> {1..<2 ^ m}"
  proof
    fix y assume "y \<in> ?s ` {0..<?n}"
    then obtain i where i: "i < ?n" "y = ?s i" by auto
    have "i \<le> ?n" using i by simp
    then have "?s i \<noteq> 0"
      by (intro alpha_power_nonzero [of "2 ^ m" poly ?n i] one) simp_all
    with alpha_power_range [OF rng m, of i] i show "y \<in> {1..<2 ^ m}" by simp
  qed
  have "card (?s ` {0..<?n}) = ?n"
    using inj by (simp add: card_image)
  moreover have "card {1..<2 ^ m :: int} = ?n"
    by (simp add: nat_diff_distrib nat_power_eq)
  ultimately have "?s ` {0..<?n} = {1..<2 ^ m}"
    using sub by (intro card_subset_eq) simp_all
  with x have "x \<in> ?s ` {0..<?n}" by simp
  then show ?thesis by auto
qed

lemma gf_build_fold_invariant:
  fixes m :: nat
  defines "q \<equiv> (2::nat) ^ m"
  assumes rng: "2 ^ m \<le> poly" "poly < 2 ^ (m + 1)"
    and one: "alpha_power poly (2 ^ m) (2 ^ m - 1) = 1"
    and first: "\<forall>i\<in>{1..<2 ^ m - 1}. alpha_power poly (2 ^ m) i \<noteq> 1"
    and init: "length lg0 = q" "ex0 ! 0 = 1" "lg0 ! 1 = 0" "q - 1 \<le> length ex0"
    and j: "1 \<le> j" "j \<le> q - 1"
  shows "\<exists>ex lg. fold (gf_build_step poly (2 ^ m)) [1..<j] (Some (1, ex0, lg0))
                = Some (alpha_power poly (2 ^ m) (j - 1), ex, lg)
           \<and> length ex = length ex0 \<and> length lg = q
           \<and> (\<forall>i<j. ex ! i = alpha_power poly (2 ^ m) i)
           \<and> (\<forall>i<j. lg ! nat (alpha_power poly (2 ^ m) i) = int i)"
  using j
proof (induction j)
  case 0
  then show ?case by simp
next
  case (Suc j)
  let ?s = "alpha_power poly (2 ^ m)"
  have m: "0 < m"
    using Suc.prems by (cases m) (simp_all add: q_def)
  show ?case
  proof (cases "j = 0")
    case True
    with init show ?thesis
      by (simp add: alpha_power_def)
  next
    case False
    with Suc.prems have j1: "1 \<le> j" "j \<le> q - 1" "j < q - 1" by simp_all
    from Suc.IH [OF j1(1,2)] obtain ex lg where
      st: "fold (gf_build_step poly (2 ^ m)) [1..<j] (Some (1, ex0, lg0)) = Some (?s (j - 1), ex, lg)"
      and len: "length ex = length ex0" "length lg = q"
      and exi: "\<forall>i<j. ex ! i = ?s i"
      and lgi: "\<forall>i<j. lg ! nat (?s i) = int i"
      by blast
    have sj: "gf_mul_no_table (?s (j - 1)) 2 poly (2 ^ m) = ?s j"
      using j1 by (simp add: gf_mul_no_table_2 alpha_power_Suc [symmetric])
    have r: "0 \<le> ?s j" "?s j < 2 ^ m"
      using alpha_power_range [OF rng m, of j] by simp_all
    then have r': "?s j < int (length lg)"
      by (simp add: len q_def)
    have upt: "[1..<Suc j] = [1..<j] @ [j]"
      using j1 by simp
    have step: "fold (gf_build_step poly (2 ^ m)) [1..<Suc j] (Some (1, ex0, lg0))
        = Some (?s j, ex[j := ?s j], lg[nat (?s j) := int j])"
      unfolding upt fold_append comp_apply st
      using r r' sj by (simp add: gf_build_step_def Let_def)
    have jlen: "j < length ex"
      using j1 init len by simp
    have e: "\<forall>i<Suc j. (ex[j := ?s j]) ! i = ?s i"
      using exi jlen by (auto simp: nth_list_update less_Suc_eq)
    have l: "\<forall>i<Suc j. (lg[nat (?s j) := int j]) ! nat (?s i) = int i"
    proof (intro allI impI)
      fix i assume i: "i < Suc j"
      show "(lg[nat (?s j) := int j]) ! nat (?s i) = int i"
      proof (cases "i = j")
        case True
        with r r' show ?thesis by simp
      next
        case False
        with i have ij: "i < j" by simp
        have "?s i \<noteq> ?s j"
          using alpha_power_inj [OF one first, of i j] ij j1 by (simp add: q_def)
        moreover have "0 \<le> ?s i"
          using alpha_power_range [OF rng m, of i] by simp
        ultimately have "nat (?s j) \<noteq> nat (?s i)"
          using r by simp
        with lgi ij show ?thesis by simp
      qed
    qed
    have len2: "length (ex[j := ?s j]) = length ex0" "length (lg[nat (?s j) := int j]) = q"
      using len by simp_all
    have step': "fold (gf_build_step poly (2 ^ m)) [1..<Suc j] (Some (1, ex0, lg0))
        = Some (?s (Suc j - 1), ex[j := ?s j], lg[nat (?s j) := int j])"
      using step by (simp only: diff_Suc_1)
    show ?thesis
      using step' len2 e l by blast
  qed
qed

lemma fold_update_nth_other:
  "i \<notin> f ` set js \<Longrightarrow> fold (\<lambda>j e. e[f j := g j e]) js e0 ! i = e0 ! i"
  by (induction js arbitrary: e0) auto

lemma fold_update_nth_same:
  "i \<in> set js \<Longrightarrow> i < length e0 \<Longrightarrow> fold (\<lambda>j e. e[j := h j]) js e0 ! i = h i"
proof (induction js arbitrary: e0)
  case Nil
  then show ?case by simp
next
  case (Cons j js)
  show ?case
  proof (cases "i \<in> set js")
    case True
    with Cons show ?thesis by simp
  next
    case False
    with Cons.prems have ij: "i = j" by simp
    have "fold (\<lambda>j e. e[j := h j]) js (e0[j := h j]) ! i = (e0[j := h j]) ! i"
      using False fold_update_nth_other [of i "\<lambda>j. j" js "\<lambda>j e. h j" "e0[j := h j]"] by simp
    with ij Cons.prems show ?thesis by simp
  qed
qed

lemma gf_build_tables_correct:
  fixes M :: nat and poly :: int
  defines "q \<equiv> (2::nat) ^ M"
  defines "s \<equiv> alpha_power poly (2 ^ M)"
  assumes rng: "2 ^ M \<le> poly" "poly < 2 ^ (M + 1)"
    and one: "alpha_power poly (2 ^ M) (2 ^ M - 1) = 1"
    and first: "\<forall>i\<in>{1..<2 ^ M - 1}. alpha_power poly (2 ^ M) i \<noteq> 1"
    and M: "3 \<le> M"
    and flds: "field_size gf0 = 2 ^ M" "primitive_poly gf0 = poly"
    and lens: "length (exp_table gf0) = 2 * q" "length (log_table gf0) = q"
      "length (inv_table gf0) = q"
  shows "\<exists>g. gf_build_tables gf0 = Inr g \<and> field_size g = int q
           \<and> exp_table g ! 0 = 1 \<and> exp_table g ! (q - 1) = 1
           \<and> (\<forall>i<q - 1. exp_table g ! i = s i \<and> log_table g ! nat (s i) = int i)
           \<and> (\<forall>i. 1 \<le> i \<and> i < q \<longrightarrow>
                 inv_table g ! i = exp_table g ! nat (int q - 1 - log_table g ! i))"
proof -
  have "(2::nat) ^ 3 \<le> 2 ^ M"
    using M by (intro power_increasing) simp_all
  then have q8: "8 \<le> q" by (simp add: q_def)
  have nq: "nat (field_size gf0) = q"
    by (simp add: flds q_def nat_power_eq)
  have nq2: "nat ((2::int) ^ M) = q"
    by (simp add: q_def nat_power_eq)
  define ex0 where "ex0 = (exp_table gf0)[0 := 1]"
  define lg0 where "lg0 = ((log_table gf0)[0 := 0])[1 := 0]"
  have init: "length lg0 = 2 ^ M" "ex0 ! 0 = 1" "lg0 ! 1 = 0" "2 ^ M - 1 \<le> length ex0"
    using q8 lens by (simp_all add: ex0_def lg0_def q_def [symmetric])
  have j: "1 \<le> q - 1" "q - 1 \<le> 2 ^ M - 1"
    using q8 by (simp_all add: q_def)
  from gf_build_fold_invariant [OF rng one first init j]
  obtain ex1 lg1 where
    st: "fold (gf_build_step poly (2 ^ M)) [1..<q - 1] (Some (1, ex0, lg0))
           = Some (s (q - 1 - 1), ex1, lg1)"
    and len: "length ex1 = length ex0" "length lg1 = q"
    and exi: "\<forall>i<q - 1. ex1 ! i = s i"
    and lgi: "\<forall>i<q - 1. lg1 ! nat (s i) = int i"
    unfolding s_def q_def by blast
  have lex1: "length ex1 = 2 * q"
    using len lens by (simp add: ex0_def)
  define ex2 where "ex2 = fold (\<lambda>i ex. ex[i := ex ! (i - (q - 1))]) [q - 1..<2 * q - 2] ex1"
  define iv0 where "iv0 = (inv_table gf0)[0 := 0]"
  define iv1 where "iv1 = fold (\<lambda>i iv. iv[i := ex2 ! nat (int q - 1 - lg1 ! i)]) [1..<q] iv0"
  define g where "g = gf0\<lparr>exp_table := ex2, log_table := lg1, inv_table := iv1\<rparr>"
  have st': "fold (gf_build_step (primitive_poly gf0) (field_size gf0))
               [1..<nat (field_size gf0) - 1]
               (Some (1, (exp_table gf0)[0 := 1], ((log_table gf0)[0 := 0])[1 := 0]))
             = Some (s (q - 1 - 1), ex1, lg1)"
    using st [unfolded ex0_def lg0_def] unfolding flds nq2 .
  have ginit: "gf_build_tables gf0 = Inr g"
    unfolding gf_build_tables_def Let_def st' option.case prod.case
    unfolding nq g_def iv1_def iv0_def ex2_def ..
  have low: "ex2 ! i = ex1 ! i" if "i < q - 1" for i
    unfolding ex2_def using that
    by (intro fold_update_nth_other) auto
  have upt: "[q - 1..<2 * q - 2] = (q - 1) # [q..<2 * q - 2]"
    using q8 by (simp add: upt_conv_Cons)
  have top: "ex2 ! (q - 1) = ex1 ! 0"
  proof -
    have "ex2 = fold (\<lambda>i ex. ex[i := ex ! (i - (q - 1))]) [q..<2 * q - 2] (ex1[q - 1 := ex1 ! 0])"
      unfolding ex2_def upt by simp
    also have "\<dots> ! (q - 1) = (ex1[q - 1 := ex1 ! 0]) ! (q - 1)"
      by (intro fold_update_nth_other) auto
    also have "\<dots> = ex1 ! 0"
      using lex1 q8 by simp
    finally show ?thesis .
  qed
  have s0: "s 0 = 1"
    by (simp add: s_def alpha_power_def)
  have e0: "ex2 ! 0 = 1"
    using low [of 0] exi q8 s0 by simp
  have etop: "ex2 ! (q - 1) = 1"
    using top exi q8 s0 by simp
  have liv0: "length iv0 = q"
    by (simp add: iv0_def lens)
  have inv: "iv1 ! i = ex2 ! nat (int q - 1 - lg1 ! i)" if "1 \<le> i" "i < q" for i
    unfolding iv1_def using that liv0
    by (intro fold_update_nth_same [of i "[1..<q]" iv0 "\<lambda>i. ex2 ! nat (int q - 1 - lg1 ! i)"]) simp_all
  have fs: "field_size g = int q"
    by (simp add: g_def flds q_def)
  show ?thesis
    using ginit fs e0 etop low exi lgi inv
    by (intro exI [of _ g]) (simp add: g_def)
qed

text \<open>
  C6. For a symbol size \<open>m\<close> from 3 to 16 and a primitive polynomial of degree \<open>m\<close>,
  \<^verbatim>\<open>gf_init\<close> builds a field in which every non-zero element \<open>x\<close> below \<open>2 ^ m\<close>
  satisfies \<open>gf_mul x (gf_inv x) = 1\<close> and \<open>gf_div x x = 1\<close>.
\<close>

theorem gf_inverse_laws:
  assumes prim: "primitive_polynomial m poly"
  shows "\<exists>g. gf_init True m poly = Inr g
           \<and> (\<forall>x. 1 \<le> x \<and> x < 2 ^ nat m \<longrightarrow>
                  gf_mul g x (gf_inv g x) = 1 \<and> gf_div g x x = 1)"
proof -
  define M where "M = nat m"
  define q where "q = (2::nat) ^ M"
  define s where "s = alpha_power poly (2 ^ M)"
  from prim have valid: "rs_is_primitive_poly_valid m poly = 1"
    and one: "alpha_power poly (2 ^ M) (2 ^ M - 1) = 1"
    and first: "\<forall>i\<in>{1..<2 ^ M - 1}. alpha_power poly (2 ^ M) i \<noteq> 1"
    by (simp_all add: primitive_polynomial_def M_def)
  from valid_poly_range [OF valid] have m: "3 \<le> m" "m \<le> 16"
    and rng: "2 ^ M \<le> poly" "poly < 2 ^ (M + 1)"
    by (simp_all add: M_def)
  have M3: "3 \<le> M" using m by (simp add: M_def)
  have Mpos: "0 < M" using M3 by simp
  have ppos: "poly > 0"
    using rng(1) by (smt (verit) zero_less_power)
  define gf0 where "gf0 = \<lparr>symbol_size = m, field_size = int (2 ^ nat m), primitive_poly = poly,
      exp_table = replicate (2 * 2 ^ nat m) 0, log_table = replicate (2 ^ nat m) 0,
      inv_table = replicate (2 ^ nat m) 0\<rparr>"
  have init: "gf_init True m poly = gf_build_tables gf0"
    using m ppos by (simp add: gf_init_def RS_MAX_SYMBOL_SIZE_def Let_def gf0_def)
  have flds: "field_size gf0 = 2 ^ M" "primitive_poly gf0 = poly"
    and lens: "length (exp_table gf0) = 2 * 2 ^ M" "length (log_table gf0) = 2 ^ M"
      "length (inv_table gf0) = 2 ^ M"
    by (simp_all add: gf0_def M_def)
  from gf_build_tables_correct [OF rng one first M3 flds lens]
  obtain g where g: "gf_build_tables gf0 = Inr g"
    and fs: "field_size g = int q"
    and e0: "exp_table g ! 0 = 1"
    and etop: "exp_table g ! (q - 1) = 1"
    and tab: "\<forall>i<q - 1. exp_table g ! i = s i \<and> log_table g ! nat (s i) = int i"
    and inv: "\<forall>i. 1 \<le> i \<and> i < q \<longrightarrow>
                 inv_table g ! i = exp_table g ! nat (int q - 1 - log_table g ! i)"
    unfolding q_def s_def by blast
  have laws: "gf_mul g x (gf_inv g x) = 1 \<and> gf_div g x x = 1" if x: "1 \<le> x" "x < 2 ^ M" for x
  proof -
    from alpha_power_surj [OF rng one first x]
    obtain i where i: "i < q - 1" "s i = x"
      unfolding q_def s_def by blast
    have lx: "log_table g ! nat x = int i"
      using tab i by auto
    have nx: "1 \<le> nat x" "nat x < q"
      using x by (simp_all add: q_def nat_less_iff)
    have ix: "inv_table g ! nat x = exp_table g ! nat (int q - 1 - int i)"
      using inv nx lx by simp
    have dv: "gf_div g x x = 1"
      using x e0 by (simp add: gf_div_def)
    have ml: "gf_mul g x (gf_inv g x) = 1"
    proof (cases "i = 0")
      case True
      then have x1: "x = 1"
        using i by (simp add: s_def alpha_power_def)
      have "nat (int q - 1) = q - 1" by simp
      with ix True etop have "inv_table g ! nat x = 1" by simp
      moreover have "log_table g ! nat 1 = 0"
        using lx True x1 by simp
      ultimately show ?thesis
        using x1 e0 fs i by (simp add: gf_mul_def gf_inv_def)
    next
      case False
      define k where "k = q - 1 - i"
      have k: "0 < k" "k < q - 1" "k \<le> 2 ^ M - 1"
        using False i by (simp_all add: k_def q_def)
      have nk: "nat (int q - 1 - int i) = k"
        using i by (simp add: k_def)
      have y: "inv_table g ! nat x = s k"
        using ix nk tab k by simp
      have ynz: "s k \<noteq> 0"
        unfolding s_def
        by (rule alpha_power_nonzero [OF _ one k(3)]) simp
      have ly: "log_table g ! nat (s k) = int k"
        using tab k by simp
      have "int i + int k = int q - 1"
        using i by (simp add: k_def)
      then show ?thesis
        using x y ynz ly lx fs e0 by (simp add: gf_mul_def gf_inv_def)
    qed
    from ml dv show ?thesis ..
  qed
  have "\<forall>x. 1 \<le> x \<and> x < 2 ^ nat m \<longrightarrow> gf_mul g x (gf_inv g x) = 1 \<and> gf_div g x x = 1"
    using laws by (simp add: M_def)
  with init g show ?thesis by simp
qed

lemma primitive_polynomial_0xb: "primitive_polynomial 3 0xb"
  by code_simp

theorem gf_inverse_laws_witness:
  "primitive_polynomial 3 0xb \<and> gf_init True 3 0xb = Inr GF_8
   \<and> gf_mul GF_8 5 (gf_inv GF_8 5) = 1 \<and> gf_div GF_8 5 5 = 1"
proof -
  from gf_inverse_laws [OF primitive_polynomial_0xb] obtain g where
    g: "gf_init True 3 0xb = Inr g"
    and l: "\<forall>x. 1 \<le> x \<and> x < 2 ^ nat 3 \<longrightarrow> gf_mul g x (gf_inv g x) = 1 \<and> gf_div g x x = 1"
    by blast
  have "g = GF_8"
    using g gf_init_GF_8 by simp
  moreover have "gf_mul g 5 (gf_inv g 5) = 1 \<and> gf_div g 5 5 = 1"
    using l by simp
  ultimately show ?thesis
    using primitive_polynomial_0xb gf_init_GF_8 by simp
qed

section \<open>LDPC: the construction does not depend on the allocations\<close>

lemma ldpc_init_message_graph_gen_G:
  "ldpc_init_message_graph (c\<lparr>gen_G := G\<rparr>) = (ldpc_init_message_graph c)\<lparr>gen_G := G\<rparr>"
  by (simp add: ldpc_init_message_graph_def Let_def)

lemma ldpc_init_message_graph_gen_G_pc_H:
  "ldpc_init_message_graph (c\<lparr>gen_G := G, pc_H := H\<rparr>)
     = (ldpc_init_message_graph (c\<lparr>pc_H := H\<rparr>))\<lparr>gen_G := G\<rparr>"
  by (simp add: ldpc_init_message_graph_def Let_def)

lemma ldpc_create_regular_matrix_alloc:
  "ldpc_create_regular_matrix (c\<lparr>pc_H := H, gen_G := G\<rparr>) dv dc
     = map_sum id (\<lambda>c1. c1\<lparr>gen_G := G\<rparr>) (ldpc_create_regular_matrix c dv dc)"
  by (simp add: ldpc_create_regular_matrix_def Let_def ldpc_init_message_graph_gen_G_pc_H
      split: sum.splits prod.splits)

lemma ldpc_generate_standard_matrix_alloc:
  "ldpc_generate_standard_matrix (c\<lparr>pc_H := H, gen_G := G\<rparr>) rate
     = map_sum id (\<lambda>c1. c1\<lparr>gen_G := G\<rparr>) (ldpc_generate_standard_matrix c rate)"
  by (simp add: ldpc_generate_standard_matrix_def ldpc_create_regular_matrix_alloc)

lemma ldpc_generate_generator_matrix_alloc:
  "ldpc_generate_generator_matrix (c\<lparr>gen_G := G\<rparr>) = ldpc_generate_generator_matrix c"
  by (simp add: ldpc_generate_generator_matrix_def split: sum.splits)

lemma ldpc_init_alloc:
  "ldpc_init config n k H G
     = map_sum id (\<lambda>c. c\<lparr>pc_H := H, gen_G := G\<rparr>) (ldpc_init config n k H0 G0)"
  by (simp add: ldpc_init_def Let_def)

lemma fec_init_ldpc_alloc_independent:
  "fec_init_ldpc_alloc config data_length code_length H_alloc G_alloc
     = fec_init_ldpc config data_length code_length"
proof -
  have "ldpc_init config code_length data_length H_alloc G_alloc
     = map_sum id (\<lambda>c. c\<lparr>pc_H := H_alloc, gen_G := G_alloc\<rparr>)
         (ldpc_init config code_length data_length empty_matrix empty_matrix)"
    by (rule ldpc_init_alloc)
  then show ?thesis
    unfolding fec_init_ldpc_def fec_init_ldpc_alloc_def
    by (cases "ldpc_init config code_length data_length empty_matrix empty_matrix")
      (auto simp: ldpc_generate_standard_matrix_alloc ldpc_generate_generator_matrix_alloc
        split: sum.splits)
qed

section \<open>LDPC: encoding against the parity-check matrix\<close>

lemma fec_init_ldpc_6_3_encode:
  "(case fec_init_ldpc LDPC_config_1 3 6 of
      Inl e \<Rightarrow> False
    | Inr c \<Rightarrow> ldpc_encode c [0, 1, 0] 6 = Inr [0, 1, 0, 0, 0, 0]
         \<and> parity_checks c [0, 1, 0, 0, 0, 0] = [1, 1, 1])"
  by code_simp

text \<open>
  Claim C2. The codec that \<^verbatim>\<open>fec_init\<close> builds for 3 information bits and 6 code bits
  (rate 1/2, the standard construction) encodes the information word 0 1 0 to
  0 1 0 0 0 0, and every one of the three parity checks of its matrix H is 1 on this word:
  H times the code word is not zero.
\<close>

theorem ldpc_encode_violates_parity_checks:
  "\<exists>c. fec_init_ldpc LDPC_config_1 3 6 = Inr c
     \<and> ldpc_encode c [0, 1, 0] 6 = Inr [0, 1, 0, 0, 0, 0]
     \<and> parity_checks c [0, 1, 0, 0, 0, 0] = [1, 1, 1]"
  using fec_init_ldpc_6_3_encode
  by (cases "fec_init_ldpc LDPC_config_1 3 6") simp_all

section \<open>LDPC: decoding\<close>


lemma count_fold_card:
  "fold (\<lambda>i cnt. if P i then cnt + 1 else cnt) [0..<k] (a::int)
     = a + int (card {i. i < k \<and> P i})"
proof (induction k)
  case 0
  show ?case by simp
next
  case (Suc k)
  have split: "{i. i < Suc k \<and> P i} = {i. i < k \<and> P i} \<union> (if P k then {k} else {})"
    by (auto simp: less_Suc_eq)
  have fin: "finite {i. i < k \<and> P i}" by simp
  have "card {i. i < Suc k \<and> P i} = card {i. i < k \<and> P i} + (if P k then 1 else 0)"
    unfolding split using fin by (auto simp: card_insert_if)
  with Suc show ?case by simp
qed

lemma decode_start_8_4: "decode_start LDPC_8_4 received_8_4 = start_8_4"
  by code_simp

lemma start_8_4_fields:
  "ldpc_n start_8_4 = 8" "ldpc_m start_8_4 = 4" "ldpc_k start_8_4 = 4"
  "check_degree start_8_4 = [6, 6, 6, 6]"
  "var_degree start_8_4 = [3, 3, 3, 3, 3, 3, 3, 3]"
  "check_to_var_edges start_8_4 = [[0, 1, 2, 4, 5, 6], [0, 1, 3, 4, 5, 7], [0, 2, 3, 4, 6, 7], [1, 2, 3, 5, 6, 7]]"
  "var_to_check_edges start_8_4 = [[0, 1, 2], [0, 1, 3], [0, 2, 3], [1, 2, 3], [0, 1, 2], [0, 1, 3], [0, 2, 3], [1, 2, 3]]"
  "channel_llr start_8_4 = [10, - 10, - 10, - 10, 10, 10, 10, 10]"
  "variable_to_check start_8_4 = [10, 10, 10, 0, - 10, - 10, - 10, 0, - 10, - 10, - 10, 0, - 10, - 10, - 10, 0,
                           10, 10, 10, 0, 10, 10, 10, 0, 10, 10, 10, 0, 10, 10, 10, 0]"
  "check_to_variable start_8_4 =
     [0, 0, 0, 0, 0, 0, 0, 0] @ [0, 0, 0, 0, 0, 0, 0, 0] @ [0, 0, 0, 0, 0, 0, 0, 0]
       @ [0, 0, 0, 0, 0, 0, 0, 0]"
  by code_simp+

lemma upts: "[0..<4] = [0, 1, 2, 3]" "[0..<6] = [0, 1, 2, 3, 4, 5]" "[0..<3] = [0, 1, 2]"
  "[0..<8] = [0, 1, 2, 3, 4, 5, 6, 7]"
  by (simp_all add: upt_rec)

lemma c2v_update:
  "check_to_variable (ldpc_update_check_messages L) =
     fold (\<lambda>c c2v.
                   fold (\<lambda>e c2v1.
                           (let v = check_to_var_edges L ! c ! e
                            in if v \<ge> ldpc_n L then c2v1
                               else if c * ldpc_n L + v < ldpc_n L * ldpc_m L
                                 then c2v1[c * ldpc_n L + v := check_message L c e]
                                 else c2v1))
                     [0..<check_degree L ! c] c2v)
             [0..<ldpc_m L] (check_to_variable L)"
  by (simp add: ldpc_update_check_messages_def Let_def)

lemma check_update_8_4: "check_to_variable (ldpc_update_check_messages start_8_4) =
  [check_message start_8_4 0 0, check_message start_8_4 0 1, check_message start_8_4 0 2, 0,
   check_message start_8_4 0 3, check_message start_8_4 0 4, check_message start_8_4 0 5, 0,
   check_message start_8_4 1 0, check_message start_8_4 1 1, 0, check_message start_8_4 1 2,
   check_message start_8_4 1 3, check_message start_8_4 1 4, 0, check_message start_8_4 1 5,
   check_message start_8_4 2 0, 0, check_message start_8_4 2 1, check_message start_8_4 2 2,
   check_message start_8_4 2 3, 0, check_message start_8_4 2 4, check_message start_8_4 2 5,
   0, check_message start_8_4 3 0, check_message start_8_4 3 1, check_message start_8_4 3 2,
   0, check_message start_8_4 3 3, check_message start_8_4 3 4, check_message start_8_4 3 5]"
  unfolding c2v_update
  by (simp add: Let_def start_8_4_fields upts)

lemma phi_value_0: "phi_value 0 = 10"
  by (simp add: phi_value_def)

lemma message_magnitude_50: "message_magnitude 50 = exp (- 50)"
  by (simp add: message_magnitude_def)

lemma artanh_pos:
  fixes t :: real
  assumes "0 < t" "t < 1"
  shows "0 < artanh t"
proof -
  have "1 < (1 + t) / (1 - t)"
    using assms by (simp add: field_simps)
  then have "0 < ln ((1 + t) / (1 - t))"
    by simp
  then show ?thesis
    by (simp add: artanh_def)
qed

lemma message_magnitude_pos: "0 < message_magnitude s"
proof (cases "exp (- s) < 1 - 1 / 10 ^ 10")
  case True
  have "(1 :: real) - 1 / 10 ^ 10 < 1"
    by simp
  with True have "exp (- s) < 1"
    by (rule less_trans)
  then have "0 < artanh (exp (- s))"
    by (intro artanh_pos) simp_all
  then show ?thesis
    by (simp add: message_magnitude_def Let_def)
next
  case False
  then show ?thesis
    by (simp add: message_magnitude_def Let_def)
qed

lemma check_update_fields:
  "ldpc_n (ldpc_update_check_messages L) = ldpc_n L"
  "ldpc_m (ldpc_update_check_messages L) = ldpc_m L"
  "ldpc_k (ldpc_update_check_messages L) = ldpc_k L"
  "pc_H (ldpc_update_check_messages L) = pc_H L"
  "var_degree (ldpc_update_check_messages L) = var_degree L"
  "var_to_check_edges (ldpc_update_check_messages L) = var_to_check_edges L"
  "channel_llr (ldpc_update_check_messages L) = channel_llr L"
  "decoded_bits (ldpc_update_check_messages L) = decoded_bits L"
  "syndrome (ldpc_update_check_messages L) = syndrome L"
  by (simp_all add: ldpc_update_check_messages_def Let_def)

lemma variable_update_fields:
  "ldpc_n (ldpc_update_variable_messages L) = ldpc_n L"
  "ldpc_m (ldpc_update_variable_messages L) = ldpc_m L"
  "ldpc_k (ldpc_update_variable_messages L) = ldpc_k L"
  "pc_H (ldpc_update_variable_messages L) = pc_H L"
  "var_degree (ldpc_update_variable_messages L) = var_degree L"
  "var_to_check_edges (ldpc_update_variable_messages L) = var_to_check_edges L"
  "channel_llr (ldpc_update_variable_messages L) = channel_llr L"
  "check_to_variable (ldpc_update_variable_messages L) = check_to_variable L"
  "decoded_bits (ldpc_update_variable_messages L) = decoded_bits L"
  "syndrome (ldpc_update_variable_messages L) = syndrome L"
  by (simp_all add: ldpc_update_variable_messages_def Let_def)

lemma posterior_update_fields:
  "ldpc_n (ldpc_update_posteriors L) = ldpc_n L"
  "ldpc_m (ldpc_update_posteriors L) = ldpc_m L"
  "ldpc_k (ldpc_update_posteriors L) = ldpc_k L"
  "pc_H (ldpc_update_posteriors L) = pc_H L"
  "syndrome (ldpc_update_posteriors L) = syndrome L"
  "decoded_bits (ldpc_update_posteriors L) =
     fold (\<lambda>v d. d[v := (if posterior_value L v < 0 then 1 else 0)])
       [0..<ldpc_n L] (decoded_bits L)"
  by (simp_all add: ldpc_update_posteriors_def)

lemma syndrome_update_fields:
  "ldpc_n (ldpc_calculate_syndrome L) = ldpc_n L"
  "ldpc_m (ldpc_calculate_syndrome L) = ldpc_m L"
  "ldpc_k (ldpc_calculate_syndrome L) = ldpc_k L"
  "decoded_bits (ldpc_calculate_syndrome L) = decoded_bits L"
  by (simp_all add: ldpc_calculate_syndrome_def Let_def)

lemma syndrome_csr:
  "row_ptr (pc_H L) \<noteq> [] \<Longrightarrow> col_indices (pc_H L) \<noteq> [] \<Longrightarrow>
   syndrome (ldpc_calculate_syndrome L) =
     fold (\<lambda>r s. s[r := syndrome_row (pc_H L) (ldpc_n L) (decoded_bits L) r]) [0..<ldpc_m L]
       (fold (\<lambda>i s. s[i := 0]) [0..<ldpc_m L] (syndrome L))"
  by (simp add: ldpc_calculate_syndrome_def Let_def)

lemma posterior_value_variable_update:
  "posterior_value (ldpc_update_variable_messages L) v = posterior_value L v"
  unfolding posterior_value_def variable_update_fields ..

lemma start_8_4_more_fields:
  "decoded_bits start_8_4 = [0, 0, 0, 0, 0, 0, 0, 0]"
  "syndrome start_8_4 = [0, 0, 0, 0]"
  "pc_H start_8_4 = H_8_4"
  "max_iterations start_8_4 = 1"
  by code_simp+

lemma syndrome_rows_8_4:
  "map (syndrome_row H_8_4 8 [0, 1, 1, 1, 0, 0, 0, 0]) [0, 1, 2, 3] = [0, 0, 0, 1]"
  by code_simp

lemma H_8_4_allocated: "row_ptr H_8_4 \<noteq> []" "col_indices H_8_4 \<noteq> []"
  by (simp_all add: H_8_4_def)

lemma bp_iteration_start_8_4:
  "decoded_bits (bp_iteration start_8_4) = [0, 1, 1, 1, 0, 0, 0, 0]"
  "syndrome (bp_iteration start_8_4) = [0, 0, 0, 1]"
  "ldpc_m (bp_iteration start_8_4) = 4"
  "ldpc_k (bp_iteration start_8_4) = 4"
proof -
  define M where "M = message_magnitude (5 * phi_value 10)"
  define L1 where "L1 = ldpc_update_check_messages start_8_4"
  define L2 where "L2 = ldpc_update_variable_messages L1"
  define L3 where "L3 = ldpc_update_posteriors L2"
  have M: "0 < M"
    by (simp add: M_def message_magnitude_pos)
  have E: "exp (- 50 :: real) < 1"
    by simp
  have cms:
    "check_message start_8_4 0 0 = M" "check_message start_8_4 0 1 = - M"
    "check_message start_8_4 0 2 = - M" "check_message start_8_4 0 3 = M"
    "check_message start_8_4 0 4 = M" "check_message start_8_4 0 5 = M"
    "check_message start_8_4 1 0 = M" "check_message start_8_4 1 1 = - M"
    "check_message start_8_4 1 2 = - M" "check_message start_8_4 1 3 = M"
    "check_message start_8_4 1 4 = M" "check_message start_8_4 1 5 = M"
    "check_message start_8_4 2 0 = M" "check_message start_8_4 2 1 = - M"
    "check_message start_8_4 2 2 = - M" "check_message start_8_4 2 3 = M"
    "check_message start_8_4 2 4 = M" "check_message start_8_4 2 5 = M"
    "check_message start_8_4 3 0 = exp (- 50)" "check_message start_8_4 3 1 = exp (- 50)"
    "check_message start_8_4 3 2 = exp (- 50)" "check_message start_8_4 3 3 = exp (- 50)"
    "check_message start_8_4 3 4 = exp (- 50)" "check_message start_8_4 3 5 = exp (- 50)"
    by (simp_all add: check_message_def Let_def start_8_4_fields upts phi_value_0
        message_magnitude_50 M_def)
  have c2v: "check_to_variable L1 =
    [M, - M, - M, 0, M, M, M, 0,
     M, - M, 0, - M, M, M, 0, M,
     M, 0, - M, - M, M, 0, M, M,
     0, exp (- 50), exp (- 50), exp (- 50), 0, exp (- 50), exp (- 50), exp (- 50)]"
    unfolding L1_def check_update_8_4 cms ..
  have f1: "ldpc_n L1 = 8" "ldpc_m L1 = 4" "var_degree L1 = [3, 3, 3, 3, 3, 3, 3, 3]"
    "var_to_check_edges L1 = [[0, 1, 2], [0, 1, 3], [0, 2, 3], [1, 2, 3], [0, 1, 2], [0, 1, 3], [0, 2, 3], [1, 2, 3]]"
    "channel_llr L1 = [10, - 10, - 10, - 10, 10, 10, 10, 10]"
    by (simp_all add: L1_def check_update_fields start_8_4_fields)
  have post:
    "posterior_value L1 0 = 10 + 3 * M"
    "posterior_value L1 1 = - 10 - 2 * M + exp (- 50)"
    "posterior_value L1 2 = - 10 - 2 * M + exp (- 50)"
    "posterior_value L1 3 = - 10 - 2 * M + exp (- 50)"
    "posterior_value L1 4 = 10 + 3 * M"
    "posterior_value L1 5 = 10 + 2 * M + exp (- 50)"
    "posterior_value L1 6 = 10 + 2 * M + exp (- 50)"
    "posterior_value L1 7 = 10 + 2 * M + exp (- 50)"
    by (simp_all add: posterior_value_def Let_def f1 c2v upts)
  have signs:
    "\<not> posterior_value L2 0 < 0" "posterior_value L2 1 < 0" "posterior_value L2 2 < 0"
    "posterior_value L2 3 < 0" "\<not> posterior_value L2 4 < 0" "\<not> posterior_value L2 5 < 0"
    "\<not> posterior_value L2 6 < 0" "\<not> posterior_value L2 7 < 0"
    unfolding L2_def posterior_value_variable_update post
    using M E exp_gt_zero [of "- 50 :: real"] by linarith+
  have n2: "ldpc_n L2 = 8" "decoded_bits L2 = [0, 0, 0, 0, 0, 0, 0, 0]"
    by (simp_all add: L2_def L1_def variable_update_fields check_update_fields start_8_4_fields
        start_8_4_more_fields)
  have d3: "decoded_bits L3 = [0, 1, 1, 1, 0, 0, 0, 0]"
    unfolding L3_def posterior_update_fields n2 upts
    by (simp add: signs [unfolded One_nat_def])
  have f3: "ldpc_n L3 = 8" "ldpc_m L3 = 4" "ldpc_k L3 = 4" "pc_H L3 = H_8_4"
    "syndrome L3 = [0, 0, 0, 0]"
    by (simp_all add: L3_def L2_def L1_def posterior_update_fields variable_update_fields
        check_update_fields start_8_4_fields start_8_4_more_fields)
  have it: "bp_iteration start_8_4 = ldpc_calculate_syndrome L3"
    by (simp add: bp_iteration_def L3_def L2_def L1_def)
  show "decoded_bits (bp_iteration start_8_4) = [0, 1, 1, 1, 0, 0, 0, 0]"
    by (simp add: it syndrome_update_fields d3)
  show "ldpc_m (bp_iteration start_8_4) = 4" "ldpc_k (bp_iteration start_8_4) = 4"
    by (simp_all add: it syndrome_update_fields f3)
  have "syndrome (ldpc_calculate_syndrome L3) =
     fold (\<lambda>r s. s[r := syndrome_row H_8_4 8 [0, 1, 1, 1, 0, 0, 0, 0] r]) [0, 1, 2, 3]
       (fold (\<lambda>i s. s[i := 0]) [0, 1, 2, 3] [0, 0, 0, 0])"
    using syndrome_csr [of L3] H_8_4_allocated by (simp add: f3 d3 upts)
  also have "\<dots> = [0, 0, 0, 1]"
    using syndrome_rows_8_4 by simp
  finally show "syndrome (bp_iteration start_8_4) = [0, 0, 0, 1]"
    by (simp add: it)
qed

lemma LDPC_8_4_fields:
  "ldpc_n LDPC_8_4 = 8" "ldpc_k LDPC_8_4 = 4" "max_iterations LDPC_8_4 = 1"
  "var_to_check_edges LDPC_8_4 \<noteq> []" "check_to_var_edges LDPC_8_4 \<noteq> []"
  by code_simp+

lemma bp_loop_8_4:
  "bp_loop (nat (max_iterations LDPC_8_4)) (decode_start LDPC_8_4 received_8_4)
     = (False, bp_iteration start_8_4)"
proof -
  have "\<not> ldpc_check_convergence (bp_iteration start_8_4)"
    by (simp add: ldpc_check_convergence_def bp_iteration_start_8_4 upts)
  moreover have "nat (max_iterations LDPC_8_4) = Suc 0"
    by (simp add: LDPC_8_4_fields)
  ultimately show ?thesis
    by (simp add: decode_start_8_4)
qed

lemma ldpc_decode_returns:
  assumes "length received = ldpc_n ldpc" and "ldpc_k ldpc \<le> decoded_len"
    and "var_to_check_edges ldpc \<noteq> []" and "check_to_var_edges ldpc \<noteq> []"
    and "bp_loop (nat (max_iterations ldpc)) (decode_start ldpc received) = (converged, ldpc1)"
    and "map (\<lambda>i. word_of_int (decoded_bits ldpc1 ! i)) [0..<ldpc_k ldpc] = decoded"
  shows "ldpc_decode ldpc received decoded_len want_count =
     Inr (decoded,
          (if want_count
           then Some (fold (\<lambda>i cnt. if decoded ! i \<noteq> received ! i then cnt + 1 else cnt)
                        [0..<ldpc_k ldpc] 0)
           else None),
          ldpc1)"
  using assms by (simp add: ldpc_decode_def Let_def)

lemma ldpc_decode_8_4:
  "ldpc_decode LDPC_8_4 received_8_4 4 True = Inr ([0, 1, 1, 1], Some 0, bp_iteration start_8_4)"
proof -
  have len: "length received_8_4 = ldpc_n LDPC_8_4"
    by (simp add: received_8_4_def LDPC_8_4_fields)
  have cap: "ldpc_k LDPC_8_4 \<le> 4"
    by (simp add: LDPC_8_4_fields)
  have dec: "map (\<lambda>i. word_of_int (decoded_bits (bp_iteration start_8_4) ! i))
      [0..<ldpc_k LDPC_8_4] = [0, 1, 1, 1 :: uint8_t]"
    by (simp add: bp_iteration_start_8_4 upts LDPC_8_4_fields)
  have cnt: "fold (\<lambda>i cnt. if [0, 1, 1, 1 :: uint8_t] ! i \<noteq> received_8_4 ! i then cnt + 1 else cnt)
      [0..<ldpc_k LDPC_8_4] (0 :: int) = 0"
    by (simp add: LDPC_8_4_fields upts received_8_4_def)
  show ?thesis
    using ldpc_decode_returns [OF len cap LDPC_8_4_fields(4) LDPC_8_4_fields(5) bp_loop_8_4 dec,
        of True]
    by (simp only: cnt if_True)
qed

text \<open>
  Claim C10. When \<^verbatim>\<open>ldpc_decode\<close> succeeds and the caller asked for the count, the count
  it reports is the number of positions \<open>i < k\<close> at which the decoded symbol differs from
  the received symbol.
\<close>

theorem ldpc_decode_error_count:
  assumes "ldpc_decode ldpc received cap True = Inr (decoded, cnt, ldpc1)"
  shows "cnt = Some (int (card {i. i < ldpc_k ldpc \<and> decoded ! i \<noteq> received ! i}))"
  using assms
  by (auto simp: ldpc_decode_def Let_def count_fold_card split: if_splits prod.splits)

theorem ldpc_decode_error_count_witness:
  "ldpc_decode LDPC_8_4 received_8_4 4 True = Inr ([0, 1, 1, 1], Some 0, bp_iteration start_8_4)
   \<and> Some 0 = Some (int (card {i. i < ldpc_k LDPC_8_4
                                   \<and> [0, 1, 1, 1 :: uint8_t] ! i \<noteq> received_8_4 ! i}))"
  using ldpc_decode_error_count [OF ldpc_decode_8_4] ldpc_decode_8_4
  by (intro conjI)












section \<open>Channel model: the cached path loss\<close>









lemma channel_init_never_succeeds:
  "fst (channel_init channel distance wl w alloc_ok now) \<noteq> None"
  by (auto simp: channel_init_def channel_init_extended_def channel_update_calculations_def
      cleared_channel_def Let_def split: option.splits WeatherCondition.splits)





section \<open>Modulation: demodulating what was modulated\<close>

lemma rev_upt_8: "rev [0..<8] = [7, 6, 5, 4, 3, 2, 1, 0 :: nat]"
  by (simp add: upt_rec)

lemma fold_nth: "fold (\<lambda>i. f (xs ! i)) [0..<length xs] s = fold f xs s"
proof (induction xs arbitrary: s rule: rev_induct)
  case Nil
  show ?case by simp
next
  case (snoc x xs)
  have "fold (\<lambda>i. f ((xs @ [x]) ! i)) [0..<length xs] s
      = fold (\<lambda>i. f (xs ! i)) [0..<length xs] s"
    by (rule fold_cong) (simp_all add: nth_append)
  with snoc show ?case
    by simp
qed

lemma bit_test: "(drop_bit n (w :: uint8_t) AND 1 \<noteq> 0) = bit w n"
  by (simp add: and_one_eq bit_iff_odd_drop_bit mod_2_eq_odd)

lemma length_bits8 [simp]: "length (bits8 w) = 8"
  by (simp add: bits8_def)

lemma length_bits_of [simp]: "length (bits_of data) = 8 * length data"
  by (induction data) (simp_all add: bits_of_def)

lemma bits_of_nth:
  assumes "k < length data" and "j < 8"
  shows "bits_of data ! (8 * k + j) = bits8 (data ! k) ! j"
  using assms
proof (induction data arbitrary: k)
  case Nil
  then show ?case by simp
next
  case (Cons w data)
  show ?case
  proof (cases k)
    case 0
    with Cons.prems show ?thesis
      by (simp add: bits_of_def nth_append)
  next
    case (Suc k')
    with Cons.prems have "bits_of data ! (8 * k' + j) = bits8 (data ! k') ! j"
      by (intro Cons.IH) simp_all
    with Suc show ?thesis
      by (simp add: bits_of_def nth_append)
  qed
qed

lemma bit_bit_flag: "bit (bit_flag c j) n \<longleftrightarrow> c \<and> n = j \<and> j < 8"
  by (auto simp: bit_flag_def bit_simps)

lemma byte_of_flags:
  "fold (\<lambda>(c, j) byte. byte OR bit_flag c j) (zip (bits8 w) [7, 6, 5, 4, 3, 2, 1, 0]) 0 = w"
proof (rule bit_eqI)
  fix n
  assume "possible_bit TYPE(uint8_t) n"
  then have "n < 8"
    by (simp add: possible_bit_word)
  then consider "n = 0" | "n = 1" | "n = 2" | "n = 3" | "n = 4" | "n = 5" | "n = 6" | "n = 7"
    by linarith
  then show "bit (fold (\<lambda>(c, j) byte. byte OR bit_flag c j)
      (zip (bits8 w) [7, 6, 5, 4, 3, 2, 1, 0]) 0) n = bit w n"
    by cases (simp_all add: bits8_def bit_or_iff bit_bit_flag)
qed

lemma ook_demodulate_bits_fold:
  assumes "idx0 + length js \<le> length S"
  shows "fold (ook_demodulate_bit thr S) js (idx0, byte0)
     = (idx0 + length js,
        fold (\<lambda>(c, j) byte. byte OR bit_flag c j)
          (zip (map (\<lambda>s. double_le thr (Finite s)) (take (length js) (drop idx0 S))) js)
          byte0)"
  using assms
proof (induction js arbitrary: idx0 byte0)
  case Nil
  show ?case by simp
next
  case (Cons j js)
  then have lt: "idx0 < length S" and le: "Suc idx0 + length js \<le> length S"
    by simp_all
  have tk: "take (length (j # js)) (drop idx0 S) = S ! idx0 # take (length js) (drop (Suc idx0) S)"
    using lt by (simp add: Cons_nth_drop_Suc [symmetric])
  show ?case
    unfolding tk using Cons.IH [OF le]
    by (simp add: bit_flag_def ook_demodulate_bit_def)
qed

lemma bits_of_chunk:
  "k < length data \<Longrightarrow> take 8 (drop (8 * k) (bits_of data)) = bits8 (data ! k)"
proof (induction data arbitrary: k)
  case Nil
  then show ?case by simp
next
  case (Cons w data)
  show ?case
  proof (cases k)
    case 0
    then show ?thesis
      by (simp add: bits_of_def)
  next
    case (Suc k')
    with Cons.prems have "take 8 (drop (8 * k') (bits_of data)) = bits8 (data ! k')"
      by (intro Cons.IH) simp
    with Suc show ?thesis
      by (simp add: bits_of_def)
  qed
qed

lemma ook_modulate_byte:
  "fold (ook_modulate_bit w) js symbols = symbols @ map level (map (bit w) js)"
  by (induction js arbitrary: symbols)
    (simp_all add: ook_modulate_bit_def Let_def bit_test level_def)

lemma ook_modulate_bytes:
  "fold (\<lambda>w. fold (ook_modulate_bit w) (rev [0..<8])) ws acc = acc @ map level (bits_of ws)"
  unfolding ook_modulate_byte
  by (induction ws arbitrary: acc) (simp_all add: bits_of_def bits8_def rev_upt_8)

lemma ook_modulate_bits:
  "data \<noteq> [] \<Longrightarrow> ook_modulate data = Inr (map level (bits_of data))"
  using fold_nth [of "\<lambda>w. fold (ook_modulate_bit w) (rev [0..<8])" data "[]"]
  by (simp add: ook_modulate_def ook_modulate_bytes)

lemma threshold_range:
  assumes "snr \<noteq> NaN"
  shows "\<exists>t. ook_calculate_threshold snr = Finite t \<and> 0.3 \<le> t \<and> t \<le> 0.7"
proof (cases snr)
  case (Finite x)
  show ?thesis
  proof (cases "x \<ge> 10")
    case True
    with Finite have "ook_calculate_threshold snr = Finite 0.5"
      by (simp add: ook_calculate_threshold_def)
    then show ?thesis
      by (intro exI [of _ "0.5"]) simp
  next
    case False
    define t where "t = 0.5 + 0.1 * (0.5 / fso_db_to_linear x)"
    define t1 where "t1 = (if t > 0.7 then 0.7 else t)"
    define t2 where "t2 = (if t1 < 0.3 then 0.3 else t1)"
    from Finite False have "ook_calculate_threshold snr = Finite t2"
      by (simp add: ook_calculate_threshold_def Let_def t2_def t1_def t_def)
    moreover have "0.3 \<le> t2" "t2 \<le> 0.7"
      by (simp_all add: t2_def t1_def)
    ultimately show ?thesis
      by blast
  qed
next
  case PosInf
  then have "ook_calculate_threshold snr = Finite 0.5"
    by (simp add: ook_calculate_threshold_def)
  then show ?thesis
    by (intro exI [of _ "0.5"]) simp
next
  case NegInf
  then have "ook_calculate_threshold snr = Finite 0.7"
    by (simp add: ook_calculate_threshold_def)
  then show ?thesis
    by (intro exI [of _ "0.7"]) simp
next
  case NaN
  with assms show ?thesis
    by simp
qed

lemma detect_level:
  assumes "0.3 \<le> t" and "t \<le> 0.7"
  shows "double_le (Finite t) (Finite (level b)) = b"
  using assms by (cases b) (auto simp: double_le_def level_def)

lemma ook_demodulate_bits:
  assumes "data \<noteq> []" and "snr \<noteq> NaN"
  shows "ook_demodulate (map level (bits_of data)) snr = Inr data"
proof -
  from assms(2) obtain t where thr: "ook_calculate_threshold snr = Finite t"
    and t: "0.3 \<le> t" "t \<le> 0.7"
    using threshold_range by blast
  define symbols where "symbols = map level (bits_of data)"
  have len: "length symbols = 8 * length data"
    by (simp add: symbols_def)
  have inner: "fold (ook_demodulate_bit (Finite t) symbols) (rev [0..<8]) (8 * k, 0)
      = (8 * k + 8, data ! k)"
    if "k < length data" for k
  proof -
    have le: "8 * k + length [7, 6, 5, 4, 3, 2, 1, 0 :: nat] \<le> length symbols"
      using that by (simp add: len)
    have chunk: "map (\<lambda>s. double_le (Finite t) (Finite s)) (take 8 (drop (8 * k) symbols))
        = bits8 (data ! k)"
      using that
      by (simp add: symbols_def take_map drop_map bits_of_chunk detect_level [OF t] comp_def)
    have len8: "length [7, 6, 5, 4, 3, 2, 1, 0 :: nat] = 8"
      by simp
    have "fold (ook_demodulate_bit (Finite t) symbols) [7, 6, 5, 4, 3, 2, 1, 0] (8 * k, 0)
        = (8 * k + 8,
           fold (\<lambda>(c, j) byte. byte OR bit_flag c j)
             (zip (map (\<lambda>s. double_le (Finite t) (Finite s))
                    (take 8 (drop (8 * k) symbols)))
                [7, 6, 5, 4, 3, 2, 1, 0]) 0)"
      using ook_demodulate_bits_fold [OF le, of "Finite t" 0]
      unfolding len8 .
    also have "\<dots> = (8 * k + 8, data ! k)"
      unfolding chunk byte_of_flags ..
    finally show ?thesis
      by (simp only: rev_upt_8)
  qed
  have outer: "fold (ook_demodulate_byte (Finite t) symbols) [0..<k] (0, []) = (8 * k, take k data)"
    if "k \<le> length data" for k
    using that
  proof (induction k)
    case 0
    show ?case by simp
  next
    case (Suc k)
    then have "fold (ook_demodulate_byte (Finite t) symbols) [0..<Suc k] (0, [])
        = ook_demodulate_byte (Finite t) symbols k (8 * k, take k data)"
      by simp
    also have "\<dots> = (8 * k + 8, take k data @ [data ! k])"
      using Suc.prems by (simp add: ook_demodulate_byte_def inner)
    finally show ?case
      using Suc.prems by (simp add: take_Suc_conv_app_nth)
  qed
  have "ook_demodulate symbols snr
      = Inr (snd (fold (ook_demodulate_byte (Finite t) symbols) [0..<length data] (0, [])))"
    using assms(1) by (simp add: ook_demodulate_def len thr Let_def)
  then show ?thesis
    using outer [of "length data"] unfolding symbols_def by simp
qed

lemma FSO_PI_pos: "0 < FSO_PI"
  by (simp add: FSO_PI_def)

lemma pi_half_gt: "1.1 < pi / 2"
proof (rule ccontr)
  assume "\<not> 1.1 < pi / 2"
  then have le: "pi / 2 \<le> 1.1"
    by simp
  have "\<bar>sin (0.55 :: real)\<bar> \<le> 0.55"
    using abs_sin_x_le_abs_x [of "0.55 :: real"] by simp
  then have "(sin (0.55 :: real))\<^sup>2 \<le> 0.55\<^sup>2"
    by (metis abs_le_square_iff abs_of_nonneg zero_le_numeral divide_nonneg_nonneg
        order_refl abs_ge_zero order_trans)
  then have pos: "0 < cos (2 * (0.55 :: real))"
    unfolding cos_double_sin by (simp add: power2_eq_square)
  have "cos (1.1 :: real) \<le> cos (pi / 2)"
    using le pi_ge_two by (intro cos_monotone_0_pi_le) simp_all
  then have "cos (1.1 :: real) \<le> 0"
    by simp
  moreover have "2 * (0.55 :: real) = 1.1"
    by simp
  ultimately show False
    using pos by simp
qed

lemma cos_FSO_PI_neg: "cos FSO_PI < 0"
proof -
  have "- (pi / 2) < pi - FSO_PI"
    using pi_half_gt by (simp add: FSO_PI_def)
  moreover have "pi - FSO_PI < pi / 2"
    using pi_less_4 by (simp add: FSO_PI_def)
  ultimately have "0 < cos (pi - FSO_PI)"
    by (rule cos_gt_zero_pi)
  then show ?thesis
    by simp
qed

lemma wrap_next_phase:
  assumes "- FSO_PI \<le> p" and "p \<le> FSO_PI"
  shows "wrap_below (wrap_above (p + (if b then FSO_PI else 0))) = next_phase p b"
proof (cases b)
  case False
  with assms show ?thesis
    by (simp add: next_phase_def wrap_above.simps [of p] wrap_below.simps [of p])
next
  case True
  show ?thesis
  proof (cases "p > 0")
    case pos: True
    have "wrap_above (p + FSO_PI) = wrap_above (p - FSO_PI)"
      using pos by (simp add: wrap_above.simps [of "p + FSO_PI"])
    also have "\<dots> = p - FSO_PI"
      using assms FSO_PI_pos by (simp add: wrap_above.simps [of "p - FSO_PI"])
    finally show ?thesis
      using True pos by (simp add: next_phase_def wrap_below.simps [of "p - FSO_PI"])
  next
    case npos: False
    then have "wrap_above (p + FSO_PI) = p + FSO_PI"
      by (simp add: wrap_above.simps [of "p + FSO_PI"])
    then show ?thesis
      using True npos assms FSO_PI_pos
      by (simp add: next_phase_def wrap_below.simps [of "p + FSO_PI"])
  qed
qed

lemma next_phase_range:
  assumes "- FSO_PI \<le> p" and "p \<le> FSO_PI"
  shows "- FSO_PI \<le> next_phase p b" and "next_phase p b \<le> FSO_PI"
  using assms FSO_PI_pos by (auto simp: next_phase_def)

lemma phases_range:
  assumes "- FSO_PI \<le> p" and "p \<le> FSO_PI"
  shows "- FSO_PI \<le> last (p # phases p bs) \<and> last (p # phases p bs) \<le> FSO_PI"
  using assms
proof (induction bs arbitrary: p)
  case Nil
  then show ?case by simp
next
  case (Cons b bs)
  from Cons.IH [OF next_phase_range [OF Cons.prems]] show ?case
    by simp
qed

lemma length_phases [simp]: "length (phases p bs) = length bs"
  by (induction bs arbitrary: p) simp_all

lemma phases_append:
  "phases p (xs @ ys) = phases p xs @ phases (last (p # phases p xs)) ys"
  by (induction xs arbitrary: p) simp_all

lemma detect_phase:
  "cs_real (fso_complex_mul (fso_complex_from_polar 1 (next_phase p b))
              (fso_complex_conjugate (fso_complex_from_polar 1 p))) < 0 \<longleftrightarrow> b"
proof -
  have "cs_real (fso_complex_mul (fso_complex_from_polar 1 q)
              (fso_complex_conjugate (fso_complex_from_polar 1 p))) = cos (q - p)" for q
    by (simp add: fso_complex_mul_def fso_complex_conjugate_def fso_complex_from_polar_def
        cos_diff)
  moreover have "cos (next_phase p b - p) < 0 \<longleftrightarrow> b"
    using cos_FSO_PI_neg by (auto simp: next_phase_def)
  ultimately show ?thesis
    by simp
qed

lemma differential_bits_phases:
  "differential_bits (fso_complex_from_polar 1 p) (map (fso_complex_from_polar 1) (phases p bs))
     = bs"
  by (induction bs arbitrary: p) (simp_all add: detect_phase)

lemma dpsk_modulate_byte:
  assumes "- FSO_PI \<le> p" and "p \<le> FSO_PI"
  shows "fold (dpsk_modulate_bit w) js (p, syms)
     = (last (p # phases p (map (bit w) js)),
        syms @ map (fso_complex_from_polar 1) (phases p (map (bit w) js)))"
  using assms
proof (induction js arbitrary: p syms)
  case Nil
  show ?case by simp
next
  case (Cons j js)
  have step: "dpsk_modulate_bit w j (p, syms)
      = (next_phase p (bit w j), syms @ [fso_complex_from_polar 1 (next_phase p (bit w j))])"
    using wrap_next_phase [OF Cons.prems, of "bit w j"]
    by (simp add: dpsk_modulate_bit_def Let_def bit_test)
  show ?case
    using Cons.IH [OF next_phase_range [OF Cons.prems]]
    by (simp add: step)
qed

lemma dpsk_modulate_bytes:
  assumes "- FSO_PI \<le> p" and "p \<le> FSO_PI"
  shows "fold (\<lambda>w. fold (dpsk_modulate_bit w) (rev [0..<8])) data (p, syms)
     = (last (p # phases p (bits_of data)),
        syms @ map (fso_complex_from_polar 1) (phases p (bits_of data)))"
  using assms
proof (induction data arbitrary: p syms)
  case Nil
  show ?case by (simp add: bits_of_def)
next
  case (Cons w data)
  have b8: "map (bit w) [7, 6, 5, 4, 3, 2, 1, 0] = bits8 w"
    by (simp add: bits8_def)
  have r: "- FSO_PI \<le> last (p # phases p (bits8 w))" "last (p # phases p (bits8 w)) \<le> FSO_PI"
    using phases_range [OF Cons.prems] by simp_all
  have bo: "bits_of (w # data) = bits8 w @ bits_of data"
    by (simp add: bits_of_def)
  have ne: "phases p (bits8 w) \<noteq> []"
    by (simp add: bits8_def)
  have byte: "fold (dpsk_modulate_bit w) (rev [0..<8]) (p, syms)
      = (last (p # phases p (bits8 w)),
         syms @ map (fso_complex_from_polar 1) (phases p (bits8 w)))"
    using dpsk_modulate_byte [OF Cons.prems, of w "rev [0..<8]" syms]
    by (simp only: rev_upt_8 b8)
  have "fold (\<lambda>w. fold (dpsk_modulate_bit w) (rev [0..<8])) (w # data) (p, syms)
      = fold (\<lambda>w. fold (dpsk_modulate_bit w) (rev [0..<8])) data
          (last (p # phases p (bits8 w)),
           syms @ map (fso_complex_from_polar 1) (phases p (bits8 w)))"
    by (simp only: fold_Cons comp_apply byte)
  also have "\<dots> = (last (last (p # phases p (bits8 w))
                       # phases (last (p # phases p (bits8 w))) (bits_of data)),
                    (syms @ map (fso_complex_from_polar 1) (phases p (bits8 w)))
                      @ map (fso_complex_from_polar 1)
                          (phases (last (p # phases p (bits8 w))) (bits_of data)))"
    by (rule Cons.IH [OF r])
  also have "\<dots> = (last (p # phases p (bits_of (w # data))),
                    syms @ map (fso_complex_from_polar 1) (phases p (bits_of (w # data))))"
    unfolding bo phases_append using ne by simp
  finally show ?case .
qed

lemma dpsk_modulate_bits:
  assumes "data \<noteq> []"
    and "dpsk_initialized s = 0 \<or> (- FSO_PI \<le> last_phase s \<and> last_phase s \<le> FSO_PI)"
  defines "p \<equiv> (if dpsk_initialized s = 0 then 0 else last_phase s)"
  shows "dpsk_modulate data s =
     Inr (map (fso_complex_from_polar 1) (phases p (bits_of data)),
          (if dpsk_initialized s = 0 then s\<lparr>last_phase := 0, dpsk_initialized := 1\<rparr> else s)
            \<lparr>last_phase := last (p # phases p (bits_of data))\<rparr>)"
proof -
  have r: "- FSO_PI \<le> p" "p \<le> FSO_PI"
    using assms(2) FSO_PI_pos by (auto simp: p_def)
  have "fold (\<lambda>byte_idx. fold (dpsk_modulate_bit (data ! byte_idx)) (rev [0..<8]))
           [0..<length data] (p, [])
     = (last (p # phases p (bits_of data)),
        map (fso_complex_from_polar 1) (phases p (bits_of data)))"
    using fold_nth [of "\<lambda>w. fold (dpsk_modulate_bit w) (rev [0..<8])" data "(p, [])"]
      dpsk_modulate_bytes [OF r, of data "[]"]
    by simp
  then show ?thesis
    using assms(1) unfolding dpsk_modulate_def Let_def p_def [symmetric]
    by simp
qed

lemma dpsk_demodulate_bits_fold:
  assumes "idx0 + length js \<le> length S"
  shows "fold (dpsk_demodulate_bit S) js (prev, idx0, byte0)
     = (last (prev # take (length js) (drop idx0 S)), idx0 + length js,
        fold (\<lambda>(c, j) byte. byte OR bit_flag c j)
          (zip (differential_bits prev (take (length js) (drop idx0 S))) js) byte0)"
  using assms
proof (induction js arbitrary: prev idx0 byte0)
  case Nil
  show ?case by simp
next
  case (Cons j js)
  then have lt: "idx0 < length S" and le: "Suc idx0 + length js \<le> length S"
    by simp_all
  have tk: "take (length (j # js)) (drop idx0 S) = S ! idx0 # take (length js) (drop (Suc idx0) S)"
    using lt by (simp add: Cons_nth_drop_Suc [symmetric])
  show ?case
    unfolding tk using Cons.IH [OF le]
    by (simp add: bit_flag_def dpsk_demodulate_bit_def Let_def)
qed

lemma bits_of_append: "bits_of (xs @ ys) = bits_of xs @ bits_of ys"
  by (simp add: bits_of_def)

lemma phases_chunk:
  fixes p :: real
  assumes "k < length data"
  shows "take 8 (drop (8 * k) (map f (phases p (bits_of data))))
           = map f (phases (last (p # phases p (bits_of (take k data)))) (bits8 (data ! k)))"
    and "last (p # phases p (bits_of (take (Suc k) data)))
           = last (last (p # phases p (bits_of (take k data)))
                   # phases (last (p # phases p (bits_of (take k data)))) (bits8 (data ! k)))"
proof -
  define pk where "pk = last (p # phases p (bits_of (take k data)))"
  have "data = take k data @ [data ! k] @ drop (Suc k) data"
    using assms by (simp add: id_take_nth_drop [symmetric])
  then have "bits_of data
      = bits_of (take k data @ [data ! k] @ drop (Suc k) data)"
    by simp
  also have "\<dots> = bits_of (take k data) @ bits8 (data ! k) @ bits_of (drop (Suc k) data)"
    unfolding bits_of_append by (simp add: bits_of_def)
  finally have split: "bits_of data
      = bits_of (take k data) @ bits8 (data ! k) @ bits_of (drop (Suc k) data)" .
  have len: "length (phases p (bits_of (take k data))) = 8 * k"
    using assms by simp
  show "take 8 (drop (8 * k) (map f (phases p (bits_of data))))
           = map f (phases (last (p # phases p (bits_of (take k data)))) (bits8 (data ! k)))"
    unfolding split phases_append pk_def [symmetric] map_append
    using len by simp
  have "bits_of (take (Suc k) data) = bits_of (take k data) @ bits8 (data ! k)"
    using assms by (simp add: take_Suc_conv_app_nth bits_of_def)
  then show "last (p # phases p (bits_of (take (Suc k) data)))
           = last (last (p # phases p (bits_of (take k data)))
                   # phases (last (p # phases p (bits_of (take k data)))) (bits8 (data ! k)))"
    by (simp add: phases_append bits8_def)
qed

lemma dpsk_demodulate_bits:
  fixes s :: DPSKState
  assumes "data \<noteq> []"
  defines "p \<equiv> (if dpsk_initialized s = 0 then 0 else last_phase s)"
  shows "\<exists>s1. dpsk_demodulate (map (fso_complex_from_polar 1) (phases p (bits_of data))) s
           = Inr (data, s1)"
proof -
  define S where "S = map (fso_complex_from_polar 1) (phases p (bits_of data))"
  define ph where "ph = (\<lambda>k. last (p # phases p (bits_of (take k data))))"
  have len: "length S = 8 * length data"
    by (simp add: S_def)
  have inner: "fold (dpsk_demodulate_bit S) (rev [0..<8]) (fso_complex_from_polar 1 (ph k), 8 * k, 0)
      = (fso_complex_from_polar 1 (ph (Suc k)), 8 * k + 8, data ! k)"
    if "k < length data" for k
  proof -
    have le: "8 * k + length [7, 6, 5, 4, 3, 2, 1, 0 :: nat] \<le> length S"
      using that by (simp add: len)
    have len8: "length [7, 6, 5, 4, 3, 2, 1, 0 :: nat] = 8"
      by simp
    have chunk: "take 8 (drop (8 * k) S)
        = map (fso_complex_from_polar 1) (phases (ph k) (bits8 (data ! k)))"
      unfolding S_def ph_def by (rule phases_chunk(1) [OF that])
    have nxt: "ph (Suc k) = last (ph k # phases (ph k) (bits8 (data ! k)))"
      unfolding ph_def by (rule phases_chunk(2) [OF that])
    have lst: "last (fso_complex_from_polar 1 (ph k)
                 # map (fso_complex_from_polar 1) (phases (ph k) (bits8 (data ! k))))
        = fso_complex_from_polar 1 (ph (Suc k))"
      unfolding nxt by (simp add: last_map bits8_def)
    have "fold (dpsk_demodulate_bit S) [7, 6, 5, 4, 3, 2, 1, 0]
            (fso_complex_from_polar 1 (ph k), 8 * k, 0)
        = (last (fso_complex_from_polar 1 (ph k) # take 8 (drop (8 * k) S)), 8 * k + 8,
           fold (\<lambda>(c, j) byte. byte OR bit_flag c j)
             (zip (differential_bits (fso_complex_from_polar 1 (ph k))
                     (take 8 (drop (8 * k) S)))
                [7, 6, 5, 4, 3, 2, 1, 0]) 0)"
      using dpsk_demodulate_bits_fold [OF le, of "fso_complex_from_polar 1 (ph k)" 0]
      unfolding len8 .
    also have "\<dots> = (fso_complex_from_polar 1 (ph (Suc k)), 8 * k + 8, data ! k)"
      unfolding chunk differential_bits_phases byte_of_flags lst ..
    finally show ?thesis
      by (simp only: rev_upt_8)
  qed
  have outer: "fold (dpsk_demodulate_byte S) [0..<k] (fso_complex_from_polar 1 p, 0, [])
      = (fso_complex_from_polar 1 (ph k), 8 * k, take k data)"
    if "k \<le> length data" for k
    using that
  proof (induction k)
    case 0
    show ?case by (simp add: ph_def bits_of_def)
  next
    case (Suc k)
    then have "fold (dpsk_demodulate_byte S) [0..<Suc k] (fso_complex_from_polar 1 p, 0, [])
        = dpsk_demodulate_byte S k (fso_complex_from_polar 1 (ph k), 8 * k, take k data)"
      by simp
    also have "\<dots> = (fso_complex_from_polar 1 (ph (Suc k)), 8 * k + 8, take k data @ [data ! k])"
      using Suc.prems by (simp add: dpsk_demodulate_byte_def inner)
    finally show ?case
      using Suc.prems by (simp add: take_Suc_conv_app_nth)
  qed
  have p0: "(if dpsk_initialized s = 0 then fso_complex_from_polar 1 0
             else fso_complex_from_polar 1 (last_phase s)) = fso_complex_from_polar 1 p"
    by (simp add: p_def)
  show ?thesis
    unfolding S_def [symmetric]
    using assms(1) outer [of "length data"]
    by (simp add: dpsk_demodulate_def len Let_def p0)
qed

lemma mask_word: "(push_bit k 1 - 1 :: uint8_t) = mask k"
  by (simp add: mask_eq_exp_minus_1)

lemma bits_of_bit:
  assumes "i < 8 * length data"
  shows "bits_of data ! i = bit (data ! (i div 8)) (7 - i mod 8)"
proof -
  have k: "i div 8 < length data" and j: "i mod 8 < 8"
    using assms by auto
  have "bits_of data ! (8 * (i div 8) + i mod 8) = bits8 (data ! (i div 8)) ! (i mod 8)"
    using k j by (rule bits_of_nth)
  moreover from j consider "i mod 8 = 0" | "i mod 8 = 1" | "i mod 8 = 2" | "i mod 8 = 3"
    | "i mod 8 = 4" | "i mod 8 = 5" | "i mod 8 = 6" | "i mod 8 = 7"
    by linarith
  then have "bits8 (data ! (i div 8)) ! (i mod 8) = bit (data ! (i div 8)) (7 - i mod 8)"
    by cases (simp_all add: bits8_def)
  ultimately show ?thesis
    by simp
qed

lemma divmod8:
  assumes "j < 8"
  shows "(8 * k + j) div 8 = (k :: nat)" and "(8 * k + j) mod 8 = j"
  using assms by simp_all

lemma mask_pow: "(2 ^ k - 1 :: uint8_t) = mask k"
  by (simp add: mask_eq_exp_minus_1)

lemma extract_bits_one:
  assumes "0 < nb" and "nb \<le> 8 - b" and "b < 8"
  shows "extract_bits_loop data nb (q, b, 0, 0) = drop_bit (8 - b - nb) (data ! q) AND mask nb"
proof -
  have m: "min nb (8 - b) = nb"
    using assms by simp
  show ?thesis
    using assms
    by (simp add: extract_bits_loop.simps [of data nb q b] Let_def m mask_pow
        extract_bits_loop.simps [of data nb "Suc q" 0])
qed

lemma extract_bits_two:
  assumes "8 - b < nb" and "nb \<le> 8" and "b < 8"
  shows "extract_bits_loop data nb (q, b, 0, 0)
     = push_bit (nb - (8 - b)) (data ! q AND mask (8 - b))
         OR (drop_bit (8 - (nb - (8 - b))) (data ! Suc q) AND mask (nb - (8 - b)))"
proof -
  have m1: "min nb (8 - b) = 8 - b" and m2: "min (nb - (8 - b)) 8 = nb - (8 - b)"
    using assms by simp_all
  have st1: "extract_bits_loop data nb (q, b, 0, 0)
      = extract_bits_loop data nb (Suc q, 0, data ! q AND mask (8 - b), 8 - b)"
    using assms
    by (subst extract_bits_loop.simps) (simp add: Let_def m1 mask_pow)
  have st2: "extract_bits_loop data nb (Suc q, 0, data ! q AND mask (8 - b), 8 - b)
      = extract_bits_loop data nb
          (Suc (Suc q), 0,
           push_bit (nb - (8 - b)) (data ! q AND mask (8 - b))
             OR (drop_bit (8 - (nb - (8 - b))) (data ! Suc q) AND mask (nb - (8 - b))),
           8 - b + (nb - (8 - b)))"
    using assms
    by (subst extract_bits_loop.simps) (simp add: Let_def m2 mask_pow)
  have st3: "extract_bits_loop data nb (Suc (Suc q), 0, r, 8 - b + (nb - (8 - b))) = r" for r
    using assms by (subst extract_bits_loop.simps) simp
  show ?thesis
    unfolding st1 st2 st3 ..
qed

lemma extract_bits_bit:
  assumes "0 < nb" and "nb \<le> 8" and "off + nb \<le> 8 * length data"
  shows "bit (extract_bits data off nb) i \<longleftrightarrow> i < nb \<and> bits_of data ! (off + nb - 1 - i)"
proof (cases "i < nb")
  case False
  define q where "q = off div 8"
  define b where "b = off mod 8"
  have b: "b < 8"
    by (simp add: b_def)
  have "\<not> bit (extract_bits data off nb) i"
  proof (cases "nb \<le> 8 - b")
    case True
    have ex: "extract_bits data off nb = drop_bit (8 - b - nb) (data ! q) AND mask nb"
      unfolding extract_bits_def q_def [symmetric] b_def [symmetric]
      using assms(1) True b by (rule extract_bits_one)
    show ?thesis
      using False by (simp add: ex bit_simps)
  next
    case two: False
    have ex: "extract_bits data off nb
        = push_bit (nb - (8 - b)) (data ! q AND mask (8 - b))
            OR (drop_bit (8 - (nb - (8 - b))) (data ! Suc q) AND mask (nb - (8 - b)))"
      unfolding extract_bits_def q_def [symmetric] b_def [symmetric]
      using two assms(2) b by (intro extract_bits_two) simp_all
    show ?thesis
      using False two assms(2) b by (auto simp: ex bit_simps)
  qed
  with False show ?thesis
    by simp
next
  case lt: True
  define q where "q = off div 8"
  define b where "b = off mod 8"
  define r where "r = off + nb - 1 - i"
  have off: "off = 8 * q + b" and b: "b < 8"
    by (simp_all add: q_def b_def)
  have r: "r < 8 * length data"
    using assms lt by (simp add: r_def)
  have bo: "bits_of data ! r = bit (data ! (r div 8)) (7 - r mod 8)"
    using r by (rule bits_of_bit)
  have "bit (extract_bits data off nb) i \<longleftrightarrow> bits_of data ! r"
  proof (cases "nb \<le> 8 - b")
    case True
    have ex: "extract_bits data off nb = drop_bit (8 - b - nb) (data ! q) AND mask nb"
      unfolding extract_bits_def q_def [symmetric] b_def [symmetric]
      using assms(1) True b by (rule extract_bits_one)
    have re: "r = 8 * q + (b + nb - 1 - i)" and small: "b + nb - 1 - i < 8"
      using True lt b assms(1) by (simp_all add: r_def off)
    have d: "r div 8 = q" and md: "r mod 8 = b + nb - 1 - i"
      using small unfolding re by simp_all
    have "7 - (b + nb - 1 - i) = 8 - b - nb + i"
      using True lt b assms(1) by simp
    moreover have "i < 8"
      using lt assms(2) by simp
    ultimately show ?thesis
      using lt by (simp add: ex bit_simps bo d md)
  next
    case False
    then have two: "8 - b < nb"
      by simp
    have ex: "extract_bits data off nb
        = push_bit (nb - (8 - b)) (data ! q AND mask (8 - b))
            OR (drop_bit (8 - (nb - (8 - b))) (data ! Suc q) AND mask (nb - (8 - b)))"
      unfolding extract_bits_def q_def [symmetric] b_def [symmetric]
      using two assms(2) b by (rule extract_bits_two)
    show ?thesis
    proof (cases "i < nb - (8 - b)")
      case low: True
      have re: "r = 8 * Suc q + (b + nb - 9 - i)" and small: "b + nb - 9 - i < 8"
        using two low b assms(2) by (simp_all add: r_def off)
      have d: "r div 8 = Suc q" and md: "r mod 8 = b + nb - 9 - i"
        unfolding re using divmod8 [OF small, of "Suc q"] by blast+
      have "7 - (b + nb - 9 - i) = 8 - (nb - (8 - b)) + i"
        using two low b assms(2) by simp
      moreover have "i < 8"
        using lt assms(2) by simp
      ultimately show ?thesis
        using lt low by (simp add: ex bit_simps bo d md)
    next
      case high: False
      have re: "r = 8 * q + (b + nb - 1 - i)" and small: "b + nb - 1 - i < 8"
        using two high lt b assms(2) by (simp_all add: r_def off)
      have d: "r div 8 = q" and md: "r mod 8 = b + nb - 1 - i"
        using small unfolding re by simp_all
      have "7 - (b + nb - 1 - i) = i - (nb - (8 - b))"
        using two high lt b assms(2) by simp
      moreover have "i - (nb - (8 - b)) < 8 - b" "nb - (8 - b) \<le> i" "i < 8"
        using two high lt b assms(2) by simp_all
      ultimately show ?thesis
        using lt high by (auto simp: ex bit_simps bo d md)
    qed
  qed
  with lt show ?thesis
    by (simp add: r_def)
qed

lemma bit_put_field:
  assumes "s + k \<le> 8" and "j < 8"
  shows "bit (put_field old s k f) j \<longleftrightarrow> (if s \<le> j \<and> j < s + k then bit f (j - s) else bit old j)"
  using assms by (auto simp: put_field_def bit_simps)

lemma insert_bits_one:
  assumes "0 < nb" and "nb \<le> 8 - b" and "b < 8" and "q < length out"
  shows "insert_bits_loop v nb (q, b, out, 0) = out[q := put_field (out ! q) (8 - b - nb) nb v]"
proof -
  have m: "min nb (8 - b) = nb"
    using assms by simp
  have st1: "insert_bits_loop v nb (q, b, out, 0)
      = insert_bits_loop v nb (Suc q, 0, out[q := put_field (out ! q) (8 - b - nb) nb v], nb)"
    using assms
    by (subst insert_bits_loop.simps) (simp add: Let_def m mask_pow put_field_def)
  have st2: "insert_bits_loop v nb (Suc q, 0, r, nb) = r" for r
    by (subst insert_bits_loop.simps) simp
  show ?thesis
    unfolding st1 st2 ..
qed

lemma insert_bits_two:
  assumes "8 - b < nb" and "nb \<le> 8" and "b < 8" and "Suc q < length out"
  shows "insert_bits_loop v nb (q, b, out, 0)
     = out[q := put_field (out ! q) 0 (8 - b) (drop_bit (nb - (8 - b)) v),
           Suc q := put_field (out ! Suc q) (8 - (nb - (8 - b))) (nb - (8 - b)) v]"
proof -
  have m1: "min nb (8 - b) = 8 - b" and m2: "min (nb - (8 - b)) 8 = nb - (8 - b)"
    using assms by simp_all
  define out1 where "out1 = out[q := put_field (out ! q) 0 (8 - b) (drop_bit (nb - (8 - b)) v)]"
  have st1: "insert_bits_loop v nb (q, b, out, 0)
      = insert_bits_loop v nb (Suc q, 0, out1, 8 - b)"
    using assms
    by (subst insert_bits_loop.simps) (simp add: Let_def m1 mask_pow put_field_def out1_def)
  have o1: "out1 ! Suc q = out ! Suc q" "Suc q < length out1"
    using assms by (simp_all add: out1_def)
  have st2: "insert_bits_loop v nb (Suc q, 0, out1, 8 - b)
      = insert_bits_loop v nb
          (Suc (Suc q), 0,
           out1[Suc q := put_field (out ! Suc q) (8 - (nb - (8 - b))) (nb - (8 - b)) v],
           8 - b + (nb - (8 - b)))"
    using assms o1
    by (subst insert_bits_loop.simps) (simp add: Let_def m2 mask_pow put_field_def)
  have st3: "insert_bits_loop v nb (Suc (Suc q), 0, r, 8 - b + (nb - (8 - b))) = r" for r
    using assms by (subst insert_bits_loop.simps) simp
  have "insert_bits_loop v nb (q, b, out, 0)
      = out1[Suc q := put_field (out ! Suc q) (8 - (nb - (8 - b))) (nb - (8 - b)) v]"
    unfolding st1 st2 st3 ..
  then show ?thesis
    unfolding out1_def .
qed

lemma insert_bits_length:
  assumes "0 < nb" and "nb \<le> 8" and "off + nb \<le> 8 * length out"
  shows "length (insert_bits out off v nb) = length out"
proof -
  define q where "q = off div 8"
  define b where "b = off mod 8"
  have off: "off = 8 * q + b" and b: "b < 8"
    by (simp_all add: q_def b_def)
  show ?thesis
  proof (cases "nb \<le> 8 - b")
    case True
    have "q < length out"
      using assms off by simp
    then show ?thesis
      unfolding insert_bits_def q_def [symmetric] b_def [symmetric]
      using insert_bits_one [OF assms(1) True b] by simp
  next
    case False
    then have two: "8 - b < nb" by simp
    then have "Suc q < length out"
      using assms off b by simp
    then show ?thesis
      unfolding insert_bits_def q_def [symmetric] b_def [symmetric]
      using insert_bits_two [OF two assms(2) b] by simp
  qed
qed

lemma insert_bits_bit:
  assumes "0 < nb" and "nb \<le> 8" and "off + nb \<le> 8 * length out" and "i < 8 * length out"
  shows "bits_of (insert_bits out off v nb) ! i
     = (if off \<le> i \<and> i < off + nb then bit v (off + nb - 1 - i) else bits_of out ! i)"
proof -
  define q where "q = off div 8"
  define b where "b = off mod 8"
  define qi where "qi = i div 8"
  define mi where "mi = i mod 8"
  define new where "new = insert_bits out off v nb"
  have off: "off = 8 * q + b" and b: "b < 8"
    by (simp_all add: q_def b_def)
  have i: "i = 8 * qi + mi" and mi: "mi < 8"
    by (simp_all add: qi_def mi_def)
  have qi: "qi < length out"
    using assms(4) i by simp
  have len: "length new = length out"
    unfolding new_def using assms(1-3) by (rule insert_bits_length)
  have bn: "bits_of new ! i = bit (new ! qi) (7 - mi)"
    unfolding qi_def mi_def using assms(4) len by (intro bits_of_bit) simp
  have bo: "bits_of out ! i = bit (out ! qi) (7 - mi)"
    unfolding qi_def mi_def using assms(4) by (intro bits_of_bit) simp
  have j: "7 - mi < 8"
    by simp
  show ?thesis
  proof (cases "nb \<le> 8 - b")
    case True
    have q: "q < length out"
      using assms off by simp
    define s where "s = 8 - b - nb"
    have new: "new = out[q := put_field (out ! q) s nb v]"
      unfolding new_def insert_bits_def q_def [symmetric] b_def [symmetric] s_def
      using assms(1) True b q by (rule insert_bits_one)
    have sk: "s + nb \<le> 8"
      using True by (simp add: s_def)
    have pf: "bit (put_field (out ! q) s nb v) (7 - mi)
        = (if s \<le> 7 - mi \<and> 7 - mi < s + nb then bit v (7 - mi - s) else bit (out ! q) (7 - mi))"
      using sk j by (rule bit_put_field)
    show ?thesis
    proof (cases "qi = q")
      case same: True
      have nq: "new ! qi = put_field (out ! q) s nb v"
        using q same by (simp add: new)
      have c: "(off \<le> i \<and> i < off + nb) = (s \<le> 7 - mi \<and> 7 - mi < s + nb)"
        using True mi b same unfolding off i s_def by auto
      have e: "off + nb - 1 - i = 7 - mi - s" if "off \<le> i \<and> i < off + nb"
        using that True mi b same unfolding off i s_def by auto
      show ?thesis
        unfolding new_def [symmetric] bn bo nq pf c [symmetric]
        using e same by auto
    next
      case other: False
      then have "new ! qi = out ! qi"
        by (simp add: new)
      moreover have "\<not> (off \<le> i \<and> i < off + nb)"
        using True mi b other unfolding off i by auto
      ultimately show ?thesis
        unfolding new_def [symmetric] bn bo by auto
    qed
  next
    case False
    then have two: "8 - b < nb" by simp
    have q: "Suc q < length out"
      using assms off b two by simp
    define k2 where "k2 = nb - (8 - b)"
    define k1 where "k1 = 8 - b"
    define s2 where "s2 = 8 - k2"
    have new: "new = out[q := put_field (out ! q) 0 k1 (drop_bit k2 v),
                         Suc q := put_field (out ! Suc q) s2 k2 v]"
      unfolding new_def insert_bits_def q_def [symmetric] b_def [symmetric] k2_def k1_def s2_def
      using two assms(2) b q by (rule insert_bits_two)
    have k2: "0 < k2" "k2 \<le> 8" "k2 + k1 = nb" "k1 = 8 - b" "s2 = 8 - k2"
      using two assms(2) b by (simp_all add: k2_def k1_def s2_def)
    have sk1: "0 + k1 \<le> 8" and sk2: "s2 + k2 \<le> 8"
      using k2 by simp_all
    have pf1: "bit (put_field (out ! q) 0 k1 (drop_bit k2 v)) (7 - mi)
        = (if 0 \<le> 7 - mi \<and> 7 - mi < 0 + k1 then bit (drop_bit k2 v) (7 - mi - 0)
           else bit (out ! q) (7 - mi))"
      using sk1 j by (rule bit_put_field)
    have pf2: "bit (put_field (out ! Suc q) s2 k2 v) (7 - mi)
        = (if s2 \<le> 7 - mi \<and> 7 - mi < s2 + k2 then bit v (7 - mi - s2)
           else bit (out ! Suc q) (7 - mi))"
      using sk2 j by (rule bit_put_field)
    consider "qi = q" | "qi = Suc q" | "qi \<noteq> q" "qi \<noteq> Suc q"
      by blast
    then show ?thesis
    proof cases
      case 1
      have nq: "new ! qi = put_field (out ! q) 0 k1 (drop_bit k2 v)"
        using q 1 by (simp add: new)
      have c: "(off \<le> i \<and> i < off + nb) = (7 - mi < 0 + k1)"
        using two mi b 1 k2 unfolding off i by auto
      have e: "off + nb - 1 - i = k2 + (7 - mi)" if "off \<le> i \<and> i < off + nb"
        using that two mi b 1 k2 unfolding off i by auto
      show ?thesis
        unfolding new_def [symmetric] bn bo nq pf1
        using e c 1 by (auto simp: bit_simps)
    next
      case 2
      have nq: "new ! qi = put_field (out ! Suc q) s2 k2 v"
        using q 2 by (simp add: new)
      have c: "(off \<le> i \<and> i < off + nb) = (s2 \<le> 7 - mi \<and> 7 - mi < s2 + k2)"
        using two mi b 2 k2 unfolding off i by auto
      have e: "off + nb - 1 - i = 7 - mi - s2" if "off \<le> i \<and> i < off + nb"
        using that two mi b 2 k2 unfolding off i by auto
      show ?thesis
        unfolding new_def [symmetric] bn bo nq pf2 c [symmetric]
        using e 2 by auto
    next
      case 3
      then have "new ! qi = out ! qi"
        by (simp add: new)
      moreover have "\<not> (off \<le> i \<and> i < off + nb)"
        using two mi b 3 k2 assms(2) unfolding off i by auto
      ultimately show ?thesis
        unfolding new_def [symmetric] bn bo by auto
    qed
  qed
qed

lemma extract_bits_less:
  assumes "0 < nb" and "nb \<le> 8" and "off + nb \<le> 8 * length data"
  shows "unat (extract_bits data off nb) < 2 ^ nb"
proof -
  have "take_bit nb (extract_bits data off nb) = extract_bits data off nb"
    by (rule bit_eqI) (auto simp: bit_simps extract_bits_bit [OF assms])
  then have "unat (extract_bits data off nb) = take_bit nb (unat (extract_bits data off nb))"
    by (metis unsigned_take_bit_eq)
  then show ?thesis
    by (metis take_bit_nat_less_exp)
qed

lemma slot_index_unique:
  fixes M :: nat
  assumes "s < M" and "v < M"
  shows "t * M + s = j * M + v \<longleftrightarrow> t = j \<and> s = v"
proof
  assume eq: "t * M + s = j * M + v"
  have "(t * M + s) div M = t" "(j * M + v) div M = j"
    using assms by simp_all
  with eq have "t = j"
    by simp
  with eq show "t = j \<and> s = v"
    by simp
qed simp

lemma ppm_modulate_invariant:
  assumes bps: "0 < bps" "bps \<le> 8" and M: "M = 2 ^ bps" and N: "N * bps = 8 * length data"
    and j: "j \<le> N"
  shows "\<exists>syms. fold (ppm_modulate_symbol data bps M) [0..<j] (0, 0, replicate (N * M) 0)
             = (j * bps, j * M, syms)
           \<and> length syms = N * M
           \<and> (\<forall>t<N. \<forall>s<M. syms ! (t * M + s)
                 = (if t < j \<and> s = unat (extract_bits data (t * bps) bps) then 1 else 0))"
  using j
proof (induction j)
  case 0
  have "\<forall>t<N. \<forall>s<M. t * M + s < N * M"
  proof (intro allI impI)
    fix t s
    assume "t < N" "s < M"
    then have "t * M + s < Suc t * M" and "Suc t \<le> N"
      by simp_all
    moreover from this(2) have "Suc t * M \<le> N * M"
      by (rule mult_le_mono1)
    ultimately show "t * M + s < N * M"
      by linarith
  qed
  then show ?case
    by simp
next
  case (Suc j)
  then obtain syms where
    st: "fold (ppm_modulate_symbol data bps M) [0..<j] (0, 0, replicate (N * M) 0)
           = (j * bps, j * M, syms)" and
    len: "length syms = N * M" and
    val: "\<forall>t<N. \<forall>s<M. syms ! (t * M + s)
                 = (if t < j \<and> s = unat (extract_bits data (t * bps) bps) then 1 else 0)"
    by auto
  define v where "v = unat (extract_bits data (j * bps) bps)"
  have jN: "j < N"
    using Suc.prems by simp
  have fits: "j * bps + bps \<le> 8 * length data"
  proof -
    have "Suc j \<le> N"
      using jN by simp
    then have "Suc j * bps \<le> N * bps"
      by (rule mult_le_mono1)
    then show ?thesis
      using N by simp
  qed
  have vM: "v < M"
    unfolding v_def M using bps fits by (rule extract_bits_less)
  have pos: "j * M + v < N * M"
  proof -
    have "j * M + v < Suc j * M" and "Suc j \<le> N"
      using vM jN by simp_all
    moreover from this(2) have "Suc j * M \<le> N * M"
      by (rule mult_le_mono1)
    ultimately show ?thesis
      by linarith
  qed
  have step: "ppm_modulate_symbol data bps M j (j * bps, j * M, syms)
      = (Suc j * bps, Suc j * M, syms[j * M + v := 1])"
    using fits by (simp add: ppm_modulate_symbol_def Let_def v_def mult.commute)
  have "fold (ppm_modulate_symbol data bps M) [0..<Suc j] (0, 0, replicate (N * M) 0)
      = (Suc j * bps, Suc j * M, syms[j * M + v := 1])"
    using st step by simp
  moreover have "length (syms[j * M + v := 1]) = N * M"
    using len by simp
  moreover have "\<forall>t<N. \<forall>s<M. syms[j * M + v := 1] ! (t * M + s)
      = (if t < Suc j \<and> s = unat (extract_bits data (t * bps) bps) then 1 else 0)"
  proof (intro allI impI)
    fix t s
    assume t: "t < N" and s: "s < M"
    have old: "syms ! (t * M + s)
        = (if t < j \<and> s = unat (extract_bits data (t * bps) bps) then 1 else 0)"
      using val t s by blast
    show "syms[j * M + v := 1] ! (t * M + s)
      = (if t < Suc j \<and> s = unat (extract_bits data (t * bps) bps) then 1 else 0)"
    proof (cases "t = j \<and> s = v")
      case True
      then show ?thesis
        using pos len by (simp add: v_def)
    next
      case False
      then have "j * M + v \<noteq> t * M + s"
        using slot_index_unique [OF s vM, of t j] by auto
      then have "syms[j * M + v := 1] ! (t * M + s) = syms ! (t * M + s)"
        by simp
      then show ?thesis
        using old False by (auto simp: v_def less_Suc_eq)
    qed
  qed
  ultimately show ?case
    by blast
qed

lemma ppm_find_slot_pulse:
  assumes "v < M" and "\<forall>s<M. symbols ! (off + s) = (if s = v then 1 else (0 :: real))"
  shows "ppm_find_slot symbols off M = v"
proof -
  define step where "step = (\<lambda>slot (max_slot :: nat, max_value :: real).
      if symbols ! (off + slot) > max_value
      then (slot, symbols ! (off + slot)) else (max_slot, max_value))"
  have inv: "fold step [1..<Suc k] (0, symbols ! off) = (if v \<le> k then (v, 1) else (0, 0))"
    if "k < M" for k
    using that
  proof (induction k)
    case 0
    have "symbols ! (off + 0) = (if 0 = v then 1 else 0)"
      using assms(2) 0 by blast
    then show ?case
      by (cases "v = 0") simp_all
  next
    case (Suc k)
    then have prev: "fold step [1..<Suc k] (0, symbols ! off)
        = (if v \<le> k then (v, 1) else (0, 0))"
      by simp
    have "symbols ! (off + Suc k) = (if Suc k = v then 1 else 0)"
      using assms(2) Suc.prems by blast
    then have cur: "symbols ! Suc (off + k) = (if Suc k = v then 1 else 0)"
      by simp
    have "fold step [1..<Suc (Suc k)] (0, symbols ! off)
        = step (Suc k) (fold step [1..<Suc k] (0, symbols ! off))"
      by simp
    also have "\<dots> = (if v \<le> Suc k then (v, 1) else (0, 0))"
      unfolding prev by (auto simp: step_def cur)
    finally show ?case .
  qed
  have M: "0 < M"
    using assms(1) by simp
  then obtain k where k: "M = Suc k"
    by (cases M) simp_all
  have "fold step [1..<M] (0, symbols ! off) = (v, 1)"
    using inv [of k] assms(1) k by simp
  then show ?thesis
    by (simp add: ppm_find_slot_def step_def)
qed

lemma bits_of_zero:
  assumes "i < 8 * n"
  shows "\<not> bits_of (replicate n 0) ! i"
proof -
  have "i < 8 * length (replicate n (0 :: uint8_t))"
    using assms by simp
  then have "bits_of (replicate n 0) ! i
      = bit (replicate n (0 :: uint8_t) ! (i div 8)) (7 - i mod 8)"
    by (rule bits_of_bit)
  moreover have "i div 8 < n"
    using assms by auto
  ultimately show ?thesis
    by simp
qed

lemma bits_of_inject:
  assumes "length xs = length ys"
    and "\<forall>i < 8 * length ys. bits_of xs ! i = bits_of ys ! i"
  shows "xs = ys"
proof (rule nth_equalityI)
  show "length xs = length ys"
    by (rule assms(1))
next
  fix k
  assume k: "k < length xs"
  show "xs ! k = ys ! k"
  proof (rule bit_eqI)
    fix m
    assume "possible_bit TYPE(uint8_t) m"
    then have m: "m < 8"
      by (simp add: possible_bit_word)
    define i where "i = 8 * k + (7 - m)"
    have i: "i < 8 * length ys" "i < 8 * length xs"
      using k m assms(1) by (simp_all add: i_def)
    have dm: "i div 8 = k" "i mod 8 = 7 - m"
      unfolding i_def using divmod8 [of "7 - m" k] by simp_all
    have "bits_of xs ! i = bit (xs ! k) m" "bits_of ys ! i = bit (ys ! k) m"
      using bits_of_bit [OF i(2)] bits_of_bit [OF i(1)] m by (simp_all add: dm)
    then show "bit (xs ! k) m = bit (ys ! k) m"
      using assms(2) i(1) by auto
  qed
qed

lemma ppm_demodulate_invariant:
  assumes bps: "0 < bps" "bps \<le> 8" and M: "M = 2 ^ bps" and N: "N * bps = 8 * length data"
    and S: "\<forall>t<N. \<forall>s<M. S ! (t * M + s)
                 = (if s = unat (extract_bits data (t * bps) bps) then 1 else (0 :: real))"
    and j: "j \<le> N"
  shows "\<exists>out. fold (ppm_demodulate_symbol S bps M (N * bps)) [0..<j]
                  (0, 0, replicate (length data) 0)
             = (j * bps, j * M, out)
           \<and> length out = length data
           \<and> (\<forall>i < 8 * length data.
                 bits_of out ! i = (if i < j * bps then bits_of data ! i else False))"
  using j
proof (induction j)
  case 0
  show ?case
    using bits_of_zero by simp
next
  case (Suc j)
  then obtain out where
    st: "fold (ppm_demodulate_symbol S bps M (N * bps)) [0..<j]
           (0, 0, replicate (length data) 0) = (j * bps, j * M, out)" and
    len: "length out = length data" and
    val: "\<forall>i < 8 * length data.
            bits_of out ! i = (if i < j * bps then bits_of data ! i else False)"
    by auto
  define w where "w = extract_bits data (j * bps) bps"
  have jN: "j < N"
    using Suc.prems by simp
  have "Suc j \<le> N"
    using jN by simp
  then have le: "Suc j * bps \<le> N * bps"
    by (rule mult_le_mono1)
  then have fits: "j * bps + bps \<le> 8 * length data"
    using N by simp
  have fits_out: "j * bps + bps \<le> 8 * length out"
    using fits len by simp
  have wM: "unat w < M"
    unfolding w_def M using bps fits by (rule extract_bits_less)
  have slot: "ppm_find_slot S (j * M) M = unat w"
    using wM
  proof (rule ppm_find_slot_pulse)
    show "\<forall>s<M. S ! (j * M + s) = (if s = unat w then 1 else 0)"
      using S jN by (simp add: w_def)
  qed
  have w_back: "(of_nat (unat w) :: uint8_t) = w"
    by simp
  have step: "ppm_demodulate_symbol S bps M (N * bps) j (j * bps, j * M, out)
      = (Suc j * bps, Suc j * M, insert_bits out (j * bps) w bps)"
    using le by (simp add: ppm_demodulate_symbol_def Let_def slot w_back)
  have "fold (ppm_demodulate_symbol S bps M (N * bps)) [0..<Suc j]
          (0, 0, replicate (length data) 0)
      = (Suc j * bps, Suc j * M, insert_bits out (j * bps) w bps)"
    using st step by simp
  moreover have "length (insert_bits out (j * bps) w bps) = length data"
    using insert_bits_length [OF bps fits_out] len by simp
  moreover have "\<forall>i < 8 * length data.
      bits_of (insert_bits out (j * bps) w bps) ! i
        = (if i < Suc j * bps then bits_of data ! i else False)"
  proof (intro allI impI)
    fix i
    assume i: "i < 8 * length data"
    then have i_out: "i < 8 * length out"
      using len by simp
    have ins: "bits_of (insert_bits out (j * bps) w bps) ! i
        = (if j * bps \<le> i \<and> i < j * bps + bps then bit w (j * bps + bps - 1 - i)
           else bits_of out ! i)"
      using bps fits_out i_out by (rule insert_bits_bit)
    have old: "bits_of out ! i = (if i < j * bps then bits_of data ! i else False)"
      using val i by blast
    show "bits_of (insert_bits out (j * bps) w bps) ! i
        = (if i < Suc j * bps then bits_of data ! i else False)"
    proof (cases "j * bps \<le> i \<and> i < j * bps + bps")
      case True
      define r where "r = j * bps + bps - 1 - i"
      have r: "r < bps" "j * bps + bps - 1 - r = i"
        using True by (auto simp: r_def)
      have "bit w r \<longleftrightarrow> r < bps \<and> bits_of data ! (j * bps + bps - 1 - r)"
        unfolding w_def using bps fits by (rule extract_bits_bit)
      then have "bit w r = bits_of data ! i"
        using r by simp
      then show ?thesis
        unfolding ins using True by (simp add: r_def)
    next
      case False
      then show ?thesis
        unfolding ins old by auto
    qed
  qed
  ultimately show ?case
    by blast
qed

lemma ppm_order_cases:
  assumes "ppm_order = 2 \<or> ppm_order = 4 \<or> ppm_order = 8 \<or> ppm_order = 16"
  shows "0 < nat (ppm_bits_per_symbol ppm_order)"
    and "nat (ppm_bits_per_symbol ppm_order) \<le> 8"
    and "nat ppm_order = 2 ^ nat (ppm_bits_per_symbol ppm_order)"
    and "nat (ppm_order mod 18446744073709551616) = nat ppm_order"
    and "ppm_order \<noteq> 0"
  using assms by (auto simp: ppm_bits_per_symbol_def)

lemma ppm_roundtrip:
  assumes "data \<noteq> []"
    and "ppm_order = 2 \<or> ppm_order = 4 \<or> ppm_order = 8 \<or> ppm_order = 16"
    and "(8 * length data) mod nat (ppm_bits_per_symbol ppm_order) = 0"
  shows "\<exists>symbols. ppm_modulate data ppm_order = Inr symbols
           \<and> ppm_demodulate symbols ppm_order = Some (Inr data)"
proof -
  define bps where "bps = nat (ppm_bits_per_symbol ppm_order)"
  define M where "M = nat ppm_order"
  define N where "N = (8 * length data) div bps"
  have bps: "0 < bps" "bps \<le> 8" and M: "M = 2 ^ bps"
    and conv: "nat (ppm_order mod 18446744073709551616) = M" and nz: "ppm_order \<noteq> 0"
    using ppm_order_cases [OF assms(2)] by (simp_all add: bps_def M_def)
  have N: "N * bps = 8 * length data"
    using assms(3) unfolding N_def bps_def [symmetric] by auto
  have Mpos: "0 < M"
    by (simp add: M)
  have Npos: "0 < N"
    using N assms(1) by (cases N) simp_all
  have ceil: "(length data * 8 + bps - 1) div bps = N"
  proof (rule div_nat_eqI)
    show "bps * N \<le> length data * 8 + bps - 1"
      using N bps by (simp add: mult.commute)
    have "length data * 8 + bps - 1 < N * bps + bps"
      using N bps by simp
    then show "length data * 8 + bps - 1 < bps * Suc N"
      by (simp add: mult.commute)
  qed
  have ceil': "(length data * 8 + bps - Suc 0) div bps = N"
    using ceil by simp
  obtain symbols where
    md: "fold (ppm_modulate_symbol data bps M) [0..<N] (0, 0, replicate (N * M) 0)
           = (N * bps, N * M, symbols)" and
    len: "length symbols = N * M" and
    val: "\<forall>t<N. \<forall>s<M. symbols ! (t * M + s)
            = (if t < N \<and> s = unat (extract_bits data (t * bps) bps) then 1 else 0)"
    using ppm_modulate_invariant [OF bps M N order_refl] by blast
  have val': "\<forall>t<N. \<forall>s<M. symbols ! (t * M + s)
            = (if s = unat (extract_bits data (t * bps) bps) then 1 else 0)"
    using val by simp
  obtain out where
    dm: "fold (ppm_demodulate_symbol symbols bps M (N * bps)) [0..<N]
           (0, 0, replicate (length data) 0) = (N * bps, N * M, out)" and
    olen: "length out = length data" and
    oval: "\<forall>i < 8 * length data.
             bits_of out ! i = (if i < N * bps then bits_of data ! i else False)"
    using ppm_demodulate_invariant [OF bps M N val' order_refl] by blast
  have "out = data"
    using olen
  proof (rule bits_of_inject)
    show "\<forall>i < 8 * length data. bits_of out ! i = bits_of data ! i"
      using oval N by simp
  qed
  have modulate: "ppm_modulate data ppm_order = Inr symbols"
    using assms(1,2)
    by (simp add: ppm_modulate_def Let_def bps_def [symmetric] M_def [symmetric] ceil' md)
  have nbytes: "(N * bps + 7) div 8 = length data"
    using N by simp
  have "ppm_demodulate symbols ppm_order = Some (Inr out)"
    using assms(2) Npos Mpos nz
    by (simp add: ppm_demodulate_def Let_def conv len bps_def [symmetric] M_def [symmetric]
        nbytes dm)
  with modulate \<open>out = data\<close> show ?thesis
    by simp
qed

lemma ppm8_one_byte:
  "(case ppm_modulate [0xFF] 8 of
      Inl e \<Rightarrow> False
    | Inr symbols \<Rightarrow> length symbols = 24 \<and> ppm_demodulate symbols 8 = Some (Inr [0xFF, 0]))"
  by code_simp

lemma bits_0x80: "bits_of [0x80] = [True, False, False, False, False, False, False, False]"
  "bits_of [0x00] = [False, False, False, False, False, False, False, False]"
  by (simp_all add: bits_of_def bits8_def)

lemma phases_0x80:
  "phases 0 (bits_of [0x80]) = replicate 8 FSO_PI"
  "phases FSO_PI (bits_of [0x00]) = replicate 8 FSO_PI"
  by (simp_all add: bits_0x80 next_phase_def numeral_eq_Suc)

lemma dpsk_same_state:
  "\<exists>symbols s1 s2. dpsk_modulate [0x80] dpsk_fresh = Inr (symbols, s1)
      \<and> dpsk_demodulate symbols s1 = Inr ([0x00], s2)"
proof -
  define s1 where "s1 = \<lparr>last_phase = FSO_PI, dpsk_initialized = 1\<rparr>"
  define symbols where "symbols = map (fso_complex_from_polar 1) (replicate 8 FSO_PI)"
  have "dpsk_modulate [0x80] dpsk_fresh = Inr (symbols, s1)"
    using dpsk_modulate_bits [of "[0x80]" dpsk_fresh]
    by (simp add: dpsk_fresh_def symbols_def s1_def phases_0x80 [simplified])
  moreover have "\<exists>s2. dpsk_demodulate symbols s1 = Inr ([0x00], s2)"
    using dpsk_demodulate_bits [of "[0x00]" s1]
    by (simp add: symbols_def s1_def phases_0x80 [simplified])
  ultimately show ?thesis
    by blast
qed

lemma ceil_three:
  fixes n :: nat
  assumes "(8 * n) mod 3 \<noteq> 0"
  defines "N \<equiv> (n * 8 + 3 - 1) div 3"
  shows "(N * 3 + 7) div 8 = n + 1" and "N * 3 \<le> 8 * (n + 1)"
proof -
  define q where "q = (8 * n) div 3"
  define r where "r = (8 * n) mod 3"
  have eq: "8 * n = 3 * q + r"
    by (simp add: q_def r_def)
  have r: "1 \<le> r" "r \<le> 2"
    using assms(1) by (simp_all add: r_def)
  have "n * 8 + 3 - 1 = 3 * q + r + 2"
    using eq by simp
  then have "N = (3 * q + r + 2) div 3"
    by (simp only: N_def)
  also have "\<dots> = q + 1"
  proof (rule div_nat_eqI)
    show "3 * (q + 1) \<le> 3 * q + r + 2"
      using r by simp
    show "3 * q + r + 2 < 3 * Suc (q + 1)"
      using r by simp
  qed
  finally have "N = q + 1" .
  then have N: "N * 3 + r = 8 * n + 3"
    using eq by simp
  show "(N * 3 + 7) div 8 = n + 1"
  proof (rule div_nat_eqI)
    show "8 * (n + 1) \<le> N * 3 + 7"
      using N r by arith
    show "N * 3 + 7 < 8 * Suc (n + 1)"
      using N r by arith
  qed
  show "N * 3 \<le> 8 * (n + 1)"
    using N r by arith
qed

lemma ppm_modulate_fold:
  "\<exists>syms. fold (ppm_modulate_symbol data bps M) js (bo, so, init)
            = (bo + length js * bps, so + length js * M, syms)
          \<and> length syms = length init"
proof (induction js arbitrary: bo so init)
  case Nil
  show ?case by simp
next
  case (Cons j js)
  obtain init1 where
    step: "ppm_modulate_symbol data bps M j (bo, so, init) = (bo + bps, so + M, init1)"
    and len: "length init1 = length init"
    by (simp add: ppm_modulate_symbol_def Let_def)
  from Cons.IH [of "bo + bps" "so + M" init1] show ?case
    by (auto simp: step len)
qed

lemma ppm_demodulate_fold:
  assumes bps: "0 < bps" "bps \<le> 8" and fits: "N * bps \<le> 8 * length init" and j: "j \<le> N"
  shows "\<exists>out. fold (ppm_demodulate_symbol S bps M (N * bps)) [0..<j] (0, 0, init)
             = (j * bps, j * M, out)
           \<and> length out = length init"
  using j
proof (induction j)
  case 0
  show ?case by simp
next
  case (Suc j)
  then obtain out where
    st: "fold (ppm_demodulate_symbol S bps M (N * bps)) [0..<j] (0, 0, init)
           = (j * bps, j * M, out)" and
    len: "length out = length init"
    by auto
  have "Suc j \<le> N"
    using Suc.prems by simp
  then have le: "Suc j * bps \<le> N * bps"
    by (rule mult_le_mono1)
  then have fits_out: "j * bps + bps \<le> 8 * length out"
    using fits len by simp
  define w where "w = (of_nat (ppm_find_slot S (j * M) M) :: uint8_t)"
  have step: "ppm_demodulate_symbol S bps M (N * bps) j (j * bps, j * M, out)
      = (Suc j * bps, Suc j * M, insert_bits out (j * bps) w bps)"
    using le by (simp add: ppm_demodulate_symbol_def Let_def w_def)
  have "fold (ppm_demodulate_symbol S bps M (N * bps)) [0..<Suc j] (0, 0, init)
      = (Suc j * bps, Suc j * M, insert_bits out (j * bps) w bps)"
    using st step by simp
  moreover have "length (insert_bits out (j * bps) w bps) = length init"
    using insert_bits_length [OF bps fits_out] len by simp
  ultimately show ?case
    by blast
qed

lemma ppm_unaligned_length:
  assumes "data \<noteq> []"
    and "ppm_order = 2 \<or> ppm_order = 4 \<or> ppm_order = 8 \<or> ppm_order = 16"
    and "(8 * length data) mod nat (ppm_bits_per_symbol ppm_order) \<noteq> 0"
  shows "\<exists>symbols out. ppm_modulate data ppm_order = Inr symbols
           \<and> ppm_demodulate symbols ppm_order = Some (Inr out)
           \<and> length out = length data + 1"
proof -
  define bps where "bps = nat (ppm_bits_per_symbol ppm_order)"
  define M where "M = nat ppm_order"
  define N where "N = (length data * 8 + bps - 1) div bps"
  have bps: "0 < bps" "bps \<le> 8" and M: "M = 2 ^ bps"
    and conv: "nat (ppm_order mod 18446744073709551616) = M" and nz: "ppm_order \<noteq> 0"
    using ppm_order_cases [OF assms(2)] by (simp_all add: bps_def M_def)
  have three: "bps = 3"
    using assms(2,3) unfolding bps_def by (auto simp: ppm_bits_per_symbol_def)
  have Mpos: "0 < M"
    by (simp add: M)
  have Npos: "0 < N"
    using assms(1) unfolding N_def three by (cases data) simp_all
  have aligned: "(8 * length data) mod 3 \<noteq> 0"
    using assms(3) unfolding bps_def [symmetric] three .
  have nbytes: "(N * bps + 7) div 8 = length data + 1"
    unfolding N_def three using aligned by (rule ceil_three(1))
  have N': "(length data * 8 + bps - Suc 0) div bps = N"
    by (simp add: N_def)
  obtain symbols where
    md: "fold (ppm_modulate_symbol data bps M) [0..<N] (0, 0, replicate (N * M) 0)
           = (N * bps, N * M, symbols)" and
    len: "length symbols = N * M"
    using ppm_modulate_fold [of data bps M "[0..<N]" 0 0 "replicate (N * M) 0"] by auto
  have "N * bps \<le> 8 * (length data + 1)"
    unfolding N_def three using aligned by (rule ceil_three(2))
  then have "N * bps \<le> 8 * length (replicate (length data + 1) (0 :: uint8_t))"
    by simp
  from ppm_demodulate_fold [OF bps this order_refl, of symbols M]
  obtain out where
    dm: "fold (ppm_demodulate_symbol symbols bps M (N * bps)) [0..<N]
           (0, 0, replicate (length data + 1) 0) = (N * bps, N * M, out)" and
    olen: "length out = length data + 1"
    by auto
  have modulate: "ppm_modulate data ppm_order = Inr symbols"
    using assms(1,2)
    by (simp add: ppm_modulate_def Let_def bps_def [symmetric] M_def [symmetric] N' md)
  have "ppm_demodulate symbols ppm_order = Some (Inr out)"
    using assms(2) Npos Mpos nz dm
    by (simp add: ppm_demodulate_def Let_def conv len bps_def [symmetric] M_def [symmetric]
        nbytes)
  with modulate olen show ?thesis
    by simp
qed

lemma next_phase_toggle:
  assumes "- FSO_PI < p" and "p \<le> FSO_PI"
  shows "next_phase (next_phase p True) True = p"
    and "- FSO_PI < next_phase p b" and "next_phase p b \<le> FSO_PI"
  using assms FSO_PI_pos by (auto simp: next_phase_def)

lemma last_phase_parity:
  assumes "- FSO_PI < p" and "p \<le> FSO_PI"
  shows "last (p # phases p bs)
     = (if even (length (filter id bs)) then p else next_phase p True)"
  using assms
proof (induction bs arbitrary: p)
  case Nil
  show ?case by simp
next
  case (Cons b bs)
  have r: "- FSO_PI < next_phase p b" "next_phase p b \<le> FSO_PI"
    using next_phase_toggle(2,3) [OF Cons.prems] by simp_all
  have "last (p # phases p (b # bs)) = last (next_phase p b # phases (next_phase p b) bs)"
    by simp
  also have "\<dots> = (if even (length (filter id bs)) then next_phase p b
                    else next_phase (next_phase p b) True)"
    using r by (rule Cons.IH)
  also have "\<dots> = (if even (length (filter id (b # bs))) then p else next_phase p True)"
  proof (cases b)
    case True
    then show ?thesis
      using next_phase_toggle(1) [OF Cons.prems] by simp
  next
    case False
    then show ?thesis
      by (simp add: next_phase_def)
  qed
  finally show ?case .
qed

lemma phases_flip:
  assumes "- FSO_PI < p" and "p \<le> FSO_PI"
  shows "phases (next_phase p True) ((\<not> b) # bs) = phases p (b # bs)"
proof (cases b)
  case True
  then show ?thesis
    by (simp add: next_phase_def)
next
  case False
  then show ?thesis
    using next_phase_toggle(1) [OF assms] by (simp add: next_phase_def)
qed

lemma bit_0x80: "bit (0x80 :: uint8_t) n \<longleftrightarrow> n = 7"
proof -
  have "(0x80 :: uint8_t) = 2 ^ 7"
    by simp
  then show ?thesis
    by (auto simp only: bit_exp_iff possible_bit_word) simp_all
qed

lemma bits_of_flip_first:
  "bits_of (flip_first (w # ws)) = (\<not> bit w 7) # tl (bits8 w) @ bits_of ws"
  "bits_of (w # ws) = bit w 7 # tl (bits8 w) @ bits_of ws"
  by (simp_all add: bits_of_def bits8_def bit_simps bit_0x80)

lemma dpsk_same_instance:
  assumes "data \<noteq> []"
    and "dpsk_initialized s = 0 \<or> (- FSO_PI < last_phase s \<and> last_phase s \<le> FSO_PI)"
  shows "\<exists>symbols s1 s2. dpsk_modulate data s = Inr (symbols, s1)
           \<and> dpsk_demodulate symbols s1
               = Inr (if even (ones data) then data else flip_first data, s2)"
proof -
  define p where "p = (if dpsk_initialized s = 0 then 0 else last_phase s)"
  define q where "q = last (p # phases p (bits_of data))"
  define symbols where "symbols = map (fso_complex_from_polar 1) (phases p (bits_of data))"
  define s1 where "s1 =
    (if dpsk_initialized s = 0 then s\<lparr>last_phase := 0, dpsk_initialized := 1\<rparr> else s)
      \<lparr>last_phase := q\<rparr>"
  define data1 where "data1 = (if even (ones data) then data else flip_first data)"
  have r: "- FSO_PI < p" "p \<le> FSO_PI"
    using assms(2) FSO_PI_pos by (auto simp: p_def)
  have "dpsk_initialized s = 0 \<or> (- FSO_PI \<le> last_phase s \<and> last_phase s \<le> FSO_PI)"
    using assms(2) by auto
  with assms(1) have modulate: "dpsk_modulate data s = Inr (symbols, s1)"
    unfolding symbols_def s1_def q_def p_def by (rule dpsk_modulate_bits)
  have q1: "(if dpsk_initialized s1 = 0 then 0 else last_phase s1) = q"
    by (simp add: s1_def)
  have q: "q = (if even (ones data) then p else next_phase p True)"
    unfolding q_def ones_def using r by (rule last_phase_parity)
  obtain w ws where data: "data = w # ws"
    using assms(1) by (cases data) simp_all
  have ne: "data1 \<noteq> []"
    by (simp add: data1_def data)
  have "phases q (bits_of data1) = phases p (bits_of data)"
  proof (cases "even (ones data)")
    case True
    then show ?thesis
      by (simp add: q data1_def)
  next
    case False
    then have "phases q (bits_of data1)
        = phases (next_phase p True) ((\<not> bit w 7) # tl (bits8 w) @ bits_of ws)"
      by (simp only: q data1_def data bits_of_flip_first if_False)
    also have "\<dots> = phases p (bit w 7 # tl (bits8 w) @ bits_of ws)"
      using r by (rule phases_flip)
    finally show ?thesis
      by (simp only: data bits_of_flip_first)
  qed
  then have "symbols = map (fso_complex_from_polar 1)
      (phases (if dpsk_initialized s1 = 0 then 0 else last_phase s1) (bits_of data1))"
    by (simp only: symbols_def q1)
  moreover have "\<exists>s2. dpsk_demodulate (map (fso_complex_from_polar 1)
      (phases (if dpsk_initialized s1 = 0 then 0 else last_phase s1) (bits_of data1))) s1
        = Inr (data1, s2)"
    using ne by (rule dpsk_demodulate_bits)
  ultimately have "\<exists>s2. dpsk_demodulate symbols s1 = Inr (data1, s2)"
    by simp
  with modulate show ?thesis
    unfolding data1_def by blast
qed

text \<open>
  Claim C3, counterexample. The empty byte sequence is refused by the modulator
  (\<^verbatim>\<open>FSO_CHECK_PARAM(data_len > 0)\<close>). One byte in 8-PPM gives three symbols, that is 24 slots, a
  multiple of the order, and the demodulator returns two bytes. A DPSK modulator that has
  just been initialised and modulates the byte \<^verbatim>\<open>0x80\<close> leaves the phase \<open>FSO_PI\<close> in its
  state; the demodulator run on that state takes this phase as the reference of the first
  symbol and returns the byte \<^verbatim>\<open>0x00\<close>.
\<close>

theorem modulation_roundtrip_counterexample:
  "ook_modulate [] = Inl FSO_ERROR_INVALID_PARAM
   \<and> (\<exists>symbols. ppm_modulate [0xFF] 8 = Inr symbols \<and> length symbols = 24
         \<and> ppm_demodulate symbols 8 = Some (Inr [0xFF, 0]))
   \<and> (\<exists>symbols s1 s2. dpsk_modulate [0x80] dpsk_fresh = Inr (symbols, s1)
         \<and> dpsk_demodulate symbols s1 = Inr ([0x00], s2))"
proof (intro conjI)
  show "ook_modulate [] = Inl FSO_ERROR_INVALID_PARAM"
    by (simp add: ook_modulate_def)
  show "\<exists>symbols. ppm_modulate [0xFF] 8 = Inr symbols \<and> length symbols = 24
         \<and> ppm_demodulate symbols 8 = Some (Inr [0xFF, 0])"
    using ppm8_one_byte by (cases "ppm_modulate [0xFF] 8") simp_all
  show "\<exists>symbols s1 s2. dpsk_modulate [0x80] dpsk_fresh = Inr (symbols, s1)
         \<and> dpsk_demodulate symbols s1 = Inr ([0x00], s2)"
    by (rule dpsk_same_state)
qed

text \<open>
  Claim C3, as the code has it, for undistorted symbols. Every modulator refuses the empty
  byte sequence with \<^verbatim>\<open>FSO_ERROR_INVALID_PARAM\<close>. For every byte sequence \<open>b\<close> that is not
  empty:
  OOK: demodulating the symbols of \<open>b\<close> returns \<open>b\<close>, for every signal-to-noise ratio that
  is a number, \<open>+\<infinity>\<close> and \<open>-\<infinity>\<close> included.
  PPM of order 2, 4, 8 or 16: demodulating the symbols of \<open>b\<close> returns \<open>b\<close> when the number
  of bits per symbol divides the number of bits of \<open>b\<close>, and one byte more than \<open>b\<close> has
  otherwise (order 8 with a number of bytes that is not a multiple of 3).
  DPSK, for a state that is not initialised or whose last phase is in the range from
  \<open>-FSO_PI\<close> (excluded) to \<open>FSO_PI\<close>: demodulating the symbols of \<open>b\<close> on the state the
  modulator started from returns \<open>b\<close>; demodulating them on the state the modulator has
  left returns \<open>b\<close> when \<open>b\<close> has an even number of bits set, and \<open>b\<close> with the first bit
  inverted otherwise.
\<close>

theorem modulation_roundtrip:
  "(b = [] \<longrightarrow>
      ook_modulate b = Inl FSO_ERROR_INVALID_PARAM
      \<and> ppm_modulate b ppm_order = Inl FSO_ERROR_INVALID_PARAM
      \<and> dpsk_modulate b s = Inl FSO_ERROR_INVALID_PARAM)
   \<and> (b \<noteq> [] \<longrightarrow>
         (snr \<noteq> NaN \<longrightarrow>
            (\<exists>symbols. ook_modulate b = Inr symbols \<and> ook_demodulate symbols snr = Inr b))
       \<and> (ppm_order = 2 \<or> ppm_order = 4 \<or> ppm_order = 8 \<or> ppm_order = 16 \<longrightarrow>
            (\<exists>symbols out. ppm_modulate b ppm_order = Inr symbols
               \<and> ppm_demodulate symbols ppm_order = Some (Inr out)
               \<and> (if (8 * length b) mod nat (ppm_bits_per_symbol ppm_order) = 0
                   then out = b else length out = length b + 1)))
       \<and> (dpsk_initialized s = 0 \<or> (- FSO_PI < last_phase s \<and> last_phase s \<le> FSO_PI) \<longrightarrow>
            (\<exists>symbols s1 s2 s3. dpsk_modulate b s = Inr (symbols, s1)
               \<and> dpsk_demodulate symbols s = Inr (b, s2)
               \<and> dpsk_demodulate symbols s1
                   = Inr (if even (ones b) then b else flip_first b, s3))))"
proof (intro conjI impI)
  assume "b = []"
  then show "ook_modulate b = Inl FSO_ERROR_INVALID_PARAM"
    by (simp add: ook_modulate_def)
next
  assume "b = []"
  then show "ppm_modulate b ppm_order = Inl FSO_ERROR_INVALID_PARAM"
    by (simp add: ppm_modulate_def)
next
  assume "b = []"
  then show "dpsk_modulate b s = Inl FSO_ERROR_INVALID_PARAM"
    by (simp add: dpsk_modulate_def)
next
  assume assms: "b \<noteq> []"
  assume "snr \<noteq> NaN"
  with assms have "ook_demodulate (map level (bits_of b)) snr = Inr b"
    by (rule ook_demodulate_bits)
  moreover have "ook_modulate b = Inr (map level (bits_of b))"
    using assms by (rule ook_modulate_bits)
  ultimately show "\<exists>symbols. ook_modulate b = Inr symbols \<and> ook_demodulate symbols snr = Inr b"
    by simp
next
  assume assms: "b \<noteq> []"
  assume order: "ppm_order = 2 \<or> ppm_order = 4 \<or> ppm_order = 8 \<or> ppm_order = 16"
  show "\<exists>symbols out. ppm_modulate b ppm_order = Inr symbols
          \<and> ppm_demodulate symbols ppm_order = Some (Inr out)
          \<and> (if (8 * length b) mod nat (ppm_bits_per_symbol ppm_order) = 0
              then out = b else length out = length b + 1)"
  proof (cases "(8 * length b) mod nat (ppm_bits_per_symbol ppm_order) = 0")
    case True
    with ppm_roundtrip [OF assms order] show ?thesis
      by auto
  next
    case False
    with ppm_unaligned_length [OF assms order] show ?thesis
      by auto
  qed
next
  assume assms: "b \<noteq> []"
  assume range: "dpsk_initialized s = 0 \<or> (- FSO_PI < last_phase s \<and> last_phase s \<le> FSO_PI)"
  define p where "p = (if dpsk_initialized s = 0 then 0 else last_phase s)"
  from dpsk_same_instance [OF assms range] obtain symbols s1 s3 where
    modulate: "dpsk_modulate b s = Inr (symbols, s1)" and
    same: "dpsk_demodulate symbols s1 = Inr (if even (ones b) then b else flip_first b, s3)"
    by blast
  have "dpsk_initialized s = 0 \<or> (- FSO_PI \<le> last_phase s \<and> last_phase s \<le> FSO_PI)"
    using range by auto
  with assms have "dpsk_modulate b s =
     Inr (map (fso_complex_from_polar 1) (phases p (bits_of b)),
          (if dpsk_initialized s = 0 then s\<lparr>last_phase := 0, dpsk_initialized := 1\<rparr> else s)
            \<lparr>last_phase := last (p # phases p (bits_of b))\<rparr>)"
    unfolding p_def by (rule dpsk_modulate_bits)
  with modulate have symbols: "symbols = map (fso_complex_from_polar 1) (phases p (bits_of b))"
    by simp
  have "\<exists>s2. dpsk_demodulate (map (fso_complex_from_polar 1) (phases p (bits_of b))) s
           = Inr (b, s2)"
    using assms unfolding p_def by (rule dpsk_demodulate_bits)
  then obtain s2 where "dpsk_demodulate symbols s = Inr (b, s2)"
    unfolding symbols by blast
  with modulate same show "\<exists>symbols s1 s2 s3. dpsk_modulate b s = Inr (symbols, s1)
      \<and> dpsk_demodulate symbols s = Inr (b, s2)
      \<and> dpsk_demodulate symbols s1 = Inr (if even (ones b) then b else flip_first b, s3)"
    by blast
qed

theorem modulation_roundtrip_witness:
  "(ook_modulate [] = Inl FSO_ERROR_INVALID_PARAM
     \<and> ppm_modulate [] 4 = Inl FSO_ERROR_INVALID_PARAM
     \<and> dpsk_modulate [] dpsk_fresh = Inl FSO_ERROR_INVALID_PARAM)
   \<and> (\<exists>symbols. ook_modulate [0x80] = Inr symbols \<and> ook_demodulate symbols PosInf = Inr [0x80])
   \<and> (\<exists>symbols. ppm_modulate [0x80] 4 = Inr symbols
         \<and> ppm_demodulate symbols 4 = Some (Inr [0x80]))
   \<and> (\<exists>symbols s1 s2 s3. dpsk_modulate [0x80] dpsk_fresh = Inr (symbols, s1)
         \<and> dpsk_demodulate symbols dpsk_fresh = Inr ([0x80], s2)
         \<and> dpsk_demodulate symbols s1 = Inr ([0x00], s3))"
  using modulation_roundtrip [of "[]" 4 dpsk_fresh]
    modulation_roundtrip [of "[0x80]" 4 dpsk_fresh PosInf]
  by (simp add: ppm_bits_per_symbol_def dpsk_fresh_def ones_def bits_0x80)

end
